theory Spec2Isabelle
  imports Main "HOL-Library.Sublist"
begin

section \<open>JavaScript string primitives used by the library\<close>

text \<open>
  Strings are lists of code units; the development covers code units below 256, which
  is what \<^typ>\<open>char\<close> holds. Indices are integers, because \<open>indexOf\<close> and
  \<open>lastIndexOf\<close> answer \<open>-1\<close> for "not found" and \<open>substring\<close> accepts any
  integer.
\<close>

text \<open>The characters below 256 matched by \<open>\s\<close> and stripped by \<open>trim()\<close>: tab,
  line feed, vertical tab, form feed, carriage return, space and the no-break space.\<close>

definition is_space :: "char \<Rightarrow> bool" where
  "is_space c \<longleftrightarrow> c \<in> set [CHR 0x09, CHR 0x0A, CHR 0x0B, CHR 0x0C, CHR 0x0D, CHR 0x20, CHR 0xA0]"

text \<open>\<open>s.trim()\<close>\<close>

definition trim :: "string \<Rightarrow> string" where
  "trim s = rev (dropWhile is_space (rev (dropWhile is_space s)))"

text \<open>\<open>s.replace(/\s+/g, " ")\<close>: every maximal run of white space becomes one space.\<close>

function collapse_spaces :: "string \<Rightarrow> string" where
  "collapse_spaces [] = []"
| "collapse_spaces (c # cs) =
     (if is_space c then CHR 0x20 # collapse_spaces (dropWhile is_space cs)
      else c # collapse_spaces cs)"
  by pat_completeness auto

termination
  by (relation "measure length") (auto simp: length_dropWhile_le le_imp_less_Suc)

text \<open>\<open>s.replace(/[\t\n\r]/g, "").replace(/\s+/g, " ")\<close>, the first statement of both
  entry points (lines 132 and 148).\<close>

definition normalize :: "string \<Rightarrow> string" where
  "normalize s =
     collapse_spaces (filter (\<lambda>c. c \<notin> set [CHR 0x09, CHR 0x0A, CHR 0x0D]) s)"

text \<open>\<open>s.indexOf(c)\<close> and \<open>s.lastIndexOf(c)\<close> for a one-character argument.\<close>

definition indexOf :: "string \<Rightarrow> char \<Rightarrow> int" where
  "indexOf s c =
     (if c \<in> set s then int (length (takeWhile (\<lambda>x. x \<noteq> c) s)) else - 1)"

definition lastIndexOf :: "string \<Rightarrow> char \<Rightarrow> int" where
  "lastIndexOf s c =
     (if c \<in> set s
      then int (length s) - 1 - int (length (takeWhile (\<lambda>x. x \<noteq> c) (rev s)))
      else - 1)"

text \<open>\<open>s.substring(a, b)\<close>: both arguments are clamped to \<open>0 .. length\<close> and swapped
  when the first exceeds the second.\<close>

definition substring :: "string \<Rightarrow> int \<Rightarrow> int \<Rightarrow> string" where
  "substring s a b =
     (let n = int (length s);
          a' = max 0 (min a n);
          b' = max 0 (min b n);
          lo = min a' b';
          hi = max a' b'
      in take (nat (hi - lo)) (drop (nat lo) s))"

text \<open>\<open>s.split(sep)\<close> for a one-character separator: never an empty array.\<close>

fun js_split :: "string \<Rightarrow> char \<Rightarrow> string list" where
  "js_split [] sep = [[]]"
| "js_split (c # cs) sep =
     (if c = sep then [] # js_split cs sep
      else (case js_split cs sep of
              p # ps \<Rightarrow> (c # p) # ps
            | [] \<Rightarrow> [[c]]))"

text \<open>\<open>xs.join(sep)\<close>\<close>

fun join :: "string list \<Rightarrow> string \<Rightarrow> string" where
  "join [] sep = []"
| "join [x] sep = x"
| "join (x # y # ys) sep = x @ sep @ join (y # ys) sep"

text \<open>\<open>s.replace(pattern, replacement)\<close> with a string pattern: the first occurrence of
  the pattern is replaced, and a string without the pattern is returned as it is. (The
  replacements the library passes hold no \<open>$\<close>, so they are taken literally.)\<close>

fun replace_first :: "string \<Rightarrow> string \<Rightarrow> string \<Rightarrow> string" where
  "replace_first [] pat rep = (if pat = [] then rep else [])"
| "replace_first (c # cs) pat rep =
     (if prefix pat (c # cs) then rep @ drop (length pat) (c # cs)
      else c # replace_first cs pat rep)"

section \<open>Elements and errors\<close>

text \<open>
  The library builds DOM elements. An element is modelled by what the library does to
  it: the tag name given to \<open>document.createElement\<close>, the value assigned to \<open>id\<close>,
  to \<open>className\<close> and to \<open>textContent\<close> (\<open>None\<close> when the assignment is skipped),
  the \<open>setAttribute\<close> calls in order, and the elements appended with \<open>appendChild\<close>.
\<close>

datatype element =
  Element (tagName: string) (elem_id: "string option") (className: "string option")
    (textContent: "string option") (attributes: "(string \<times> string) list")
    (children: "element list")

text \<open>
  The two exceptions the library can raise: the explicit
  \<open>throw new Error("Invalid Emmet string provided")\<close> of \<open>createParental\<close>, and the
  \<open>TypeError\<close> JavaScript raises when a property of \<open>undefined\<close> is read.
\<close>

datatype error = InvalidEmmetString | TypeError

section \<open>The leaf expander \<open>simplifiedEmmetToElement\<close>\<close>

text \<open>Lines 150-156: the inner text and the string left of the last \<open>{\<close>.\<close>

definition inner_text :: "string \<Rightarrow> string \<times> string" where
  "inner_text emmetString =
     (let textIndex = lastIndexOf emmetString CHR ''{''
      in if textIndex \<noteq> - 1
         then (substring emmetString (textIndex + 1) (indexOf emmetString CHR ''}''),
               substring emmetString 0 textIndex)
         else ([], emmetString))"

text \<open>Lines 170-175, the callback of \<open>map\<close>: \<open>parts[1]\<close> is \<open>undefined\<close> when the token
  holds no \<open>=\<close>, and \<open>parts[1].indexOf\<close> then raises.\<close>

definition parse_attribute :: "string \<Rightarrow> error + (string \<times> string)" where
  "parse_attribute attr =
     (case js_split (trim attr) CHR ''='' of
        p0 # p1 # _ \<Rightarrow>
          Inr (p0, if indexOf p1 CHR 0x22 \<noteq> - 1
                   then substring p1 1 (lastIndexOf p1 CHR 0x22)
                   else p1)
      | _ \<Rightarrow> Inl TypeError)"

text \<open>\<open>xs.map(f)\<close> for a callback that may raise: the first exception ends the map.\<close>

fun map_raising :: "('a \<Rightarrow> error + 'b) \<Rightarrow> 'a list \<Rightarrow> error + 'b list" where
  "map_raising f [] = Inr []"
| "map_raising f (x # xs) =
     (case f x of
        Inl e \<Rightarrow> Inl e
      | Inr y \<Rightarrow> (case map_raising f xs of Inl e \<Rightarrow> Inl e | Inr ys \<Rightarrow> Inr (y # ys)))"

text \<open>Lines 166-169: the attribute tokens.\<close>

definition attribute_tokens :: "string \<Rightarrow> string list" where
  "attribute_tokens attributeText =
     filter (\<lambda>i. trim i \<noteq> []) (js_split (trim attributeText) CHR 0x20)"

text \<open>Lines 160-165: the text of the attribute block, when the string holds a \<open>[\<close>.\<close>

definition attribute_text :: "string \<Rightarrow> string" where
  "attribute_text emmetString =
     substring emmetString (lastIndexOf emmetString CHR ''['' + 1) (indexOf emmetString CHR '']'')"

text \<open>Lines 158-177: the attribute list and the string with the block removed.\<close>

definition attribute_block :: "string \<Rightarrow> error + ((string \<times> string) list \<times> string)" where
  "attribute_block emmetString =
     (let attributeIndex = lastIndexOf emmetString CHR ''[''
      in if attributeIndex \<noteq> - 1
         then (let attributeText = attribute_text emmetString
               in case map_raising parse_attribute (attribute_tokens attributeText) of
                    Inl e \<Rightarrow> Inl e
                  | Inr attrs \<Rightarrow>
                      Inr (attrs, replace_first emmetString (''['' @ attributeText @ '']'') []))
         else Inr ([], emmetString))"

text \<open>Lines 179-183: tag name, id (\<open>None\<close> for \<open>undefined\<close>) and classes.\<close>

definition tag_id_classes :: "string \<Rightarrow> string \<times> string option \<times> string list" where
  "tag_id_classes emmetString =
     (case js_split emmetString CHR ''.'' of
        beforeClasses # classes \<Rightarrow>
          (case js_split beforeClasses CHR ''#'' of
             tag # rest \<Rightarrow>
               (if trim tag = [] then ''div'' else trim tag,
                case rest of [] \<Rightarrow> None | ident # _ \<Rightarrow> Some ident,
                map trim classes)
           | [] \<Rightarrow> (''div'', None, map trim classes))
      | [] \<Rightarrow> (''div'', None, []))"

text \<open>Lines 185-191: the element.\<close>

definition convert_to_element ::
  "string \<Rightarrow> string option \<Rightarrow> string list \<Rightarrow> string \<Rightarrow> (string \<times> string) list \<Rightarrow> element" where
  "convert_to_element tag ident classes innerText attrs =
     Element tag
       (case ident of None \<Rightarrow> None | Some i \<Rightarrow> if i \<noteq> [] then Some (trim i) else None)
       (if length classes > 0 then Some (join classes '' '') else None)
       (if innerText \<noteq> [] then Some innerText else None)
       attrs
       []"

definition simplifiedEmmetToElement :: "string \<Rightarrow> error + element" where
  "simplifiedEmmetToElement emmetString =
     (case inner_text (normalize emmetString) of
        (innerText, emmetString1) \<Rightarrow>
          (case attribute_block emmetString1 of
             Inl e \<Rightarrow> Inl e
           | Inr (attrs, emmetString2) \<Rightarrow>
               (case tag_id_classes emmetString2 of
                  (tag, ident, classes) \<Rightarrow>
                    Inr (convert_to_element tag ident classes innerText attrs))))"

section \<open>The full grammar \<open>emmetToElements\<close>\<close>

subsection \<open>Placeholders\<close>

text \<open>The decimal digits JavaScript writes for a non-negative integer.\<close>

function show_nat :: "nat \<Rightarrow> string" where
  "show_nat n =
     (if n < 10 then [''0123456789'' ! n]
      else show_nat (n div 10) @ [''0123456789'' ! (n mod 10)])"
  by pat_completeness auto

termination
  by (relation "measure (\<lambda>n. n)") auto

declare show_nat.simps [simp del]

text \<open>Line 38: \<open>"segment_" + parseInt(Math.random()*1000)\<close>. The random integer is the
  parameter \<open>seed\<close> of the model.\<close>

definition segment :: "nat \<Rightarrow> string" where
  "segment seed = ''segment_'' @ show_nat seed"

text \<open>Line 58: the identifier \<open>mapStringToId\<close> generates for the counter's value.\<close>

definition uniqueIdentifier :: "nat \<Rightarrow> nat \<Rightarrow> string" where
  "uniqueIdentifier seed identifierCount = segment seed @ show_nat identifierCount"

subsection \<open>Grouping: \<open>splitEmmetIntoSections\<close>\<close>

definition not_paren :: "char \<Rightarrow> bool" where
  "not_paren c \<longleftrightarrow> c \<noteq> CHR ''('' \<and> c \<noteq> CHR '')''"

text \<open>Line 63 and 65: \<open>regPattern.exec(emmetString)\<close> for \<open>/\(([^()]*)\)/\<close>. The
  answer is the captured group of the leftmost match, \<open>None\<close> for \<open>null\<close>. At an
  opening parenthesis the class \<open>[^()]*\<close> takes the longest run without parentheses,
  and the match succeeds when a closing parenthesis follows the run; a shorter run is
  followed by a character of the run, so backtracking finds nothing more.\<close>

fun regPattern_exec :: "string \<Rightarrow> string option" where
  "regPattern_exec [] = None"
| "regPattern_exec (c # cs) =
     (if c = CHR ''('' \<and>
         (case dropWhile not_paren cs of d # _ \<Rightarrow> d = CHR '')'' | [] \<Rightarrow> False)
      then Some (takeWhile not_paren cs)
      else regPattern_exec cs)"

text \<open>Lines 65-70: the loop, with the counter and the map it updates as arguments.\<close>

function sections_loop ::
  "nat \<Rightarrow> string \<Rightarrow> nat \<Rightarrow> (string \<rightharpoonup> string) \<Rightarrow> string \<times> (string \<rightharpoonup> string)" where
  "sections_loop seed emmetString identifierCount dividedSections =
     (case regPattern_exec emmetString of
        None \<Rightarrow> (emmetString, dividedSections)
      | Some matchedGroup \<Rightarrow>
          sections_loop seed
            (replace_first emmetString (''('' @ matchedGroup @ '')'')
               (uniqueIdentifier seed identifierCount))
            (Suc identifierCount)
            (dividedSections(uniqueIdentifier seed identifierCount \<mapsto> matchedGroup)))"
  by pat_completeness auto

text \<open>Lines 48-76: the pair \<open>(dataString, dividedSections)\<close>.\<close>

definition splitEmmetIntoSections :: "nat \<Rightarrow> string \<Rightarrow> string \<times> (string \<rightharpoonup> string)" where
  "splitEmmetIntoSections seed emmetString = sections_loop seed emmetString 0 Map.empty"

subsection \<open>Appending to a node inside the tree under construction\<close>

text \<open>
  \<open>createParental\<close> keeps two references: \<open>parentComponent\<close>, the root it returns, and
  \<open>traversalParent\<close>, a node inside the root's tree that \<open>appendChild\<close> mutates. The
  model holds the root as a value and \<open>traversalParent\<close> as the path of child indices
  that leads from the root to the node.
\<close>

fun node_at :: "nat list \<Rightarrow> element \<Rightarrow> element option" where
  "node_at [] e = Some e"
| "node_at (k # ks) (Element t i c x a ch) =
     (if k < length ch then node_at ks (ch ! k) else None)"

text \<open>\<open>children.forEach((child) => node.appendChild(child))\<close> for the node at a path.\<close>

fun appendChildren :: "nat list \<Rightarrow> element list \<Rightarrow> element \<Rightarrow> element" where
  "appendChildren [] new (Element t i c x a ch) = Element t i c x a (ch @ new)"
| "appendChildren (k # ks) new (Element t i c x a ch) =
     Element t i c x a
       (if k < length ch then ch[k := appendChildren ks new (ch ! k)] else ch)"

subsection \<open>Siblings, descendants and placeholders\<close>

text \<open>
  The three closures call each other, and a placeholder whose recorded text holds the
  placeholder itself sends them round for ever. A call therefore has three outcomes:
  \<open>Some (Inr v)\<close> when it returns \<open>v\<close>, \<open>Some (Inl e)\<close> when it raises \<open>e\<close>, and
  \<open>None\<close> when it needs placeholders nested deeper than the bound \<open>fuel\<close>.
\<close>

type_synonym 'a outcome = "(error + 'a) option"

text \<open>\<open>xs.map(f)\<close> for such calls: the first call that does not return ends the map.\<close>

fun map_calls :: "('a \<Rightarrow> 'b outcome) \<Rightarrow> 'a list \<Rightarrow> 'b list outcome" where
  "map_calls f [] = Some (Inr [])"
| "map_calls f (x # xs) =
     (case f x of
        None \<Rightarrow> None
      | Some (Inl e) \<Rightarrow> Some (Inl e)
      | Some (Inr y) \<Rightarrow>
          (case map_calls f xs of
             None \<Rightarrow> None
           | Some (Inl e) \<Rightarrow> Some (Inl e)
           | Some (Inr ys) \<Rightarrow> Some (Inr (y # ys))))"

text \<open>Lines 109-116: the loop over the components after the first and the final
  \<open>return parentComponent\<close>. \<open>resolve\<close> stands for \<open>createHTMLElement\<close>. After the
  children are appended, \<open>children[0]\<close> is the child of \<open>traversalParent\<close> that follows
  the children it had before. An empty \<open>children\<close> would leave \<open>undefined\<close> in
  \<open>traversalParent\<close>, and the next \<open>appendChild\<close> would raise; the model raises at
  once there (and for a path that leads nowhere). Neither happens:
  \<open>createHTMLElement\<close> never returns an empty array, and the path always leads to
  the first of the children appended last.\<close>

fun forEach_component ::
  "(string \<Rightarrow> element list outcome) \<Rightarrow> string list \<Rightarrow> element \<Rightarrow> nat list \<Rightarrow> element outcome" where
  "forEach_component resolve [] parentComponent traversalParent = Some (Inr parentComponent)"
| "forEach_component resolve (component # components) parentComponent traversalParent =
     (case resolve component of
        None \<Rightarrow> None
      | Some (Inl e) \<Rightarrow> Some (Inl e)
      | Some (Inr childs) \<Rightarrow>
          (case (childs, node_at traversalParent parentComponent) of
             (_ # _, Some node) \<Rightarrow>
               forEach_component resolve components
                 (appendChildren traversalParent childs parentComponent)
                 (traversalParent @ [length (children node)])
           | _ \<Rightarrow> Some (Inl TypeError)))"

text \<open>Lines 100-108: the split on \<open>>\<close>, the check of the first component and the root.
  (\<open>console.log\<close> on line 102 has no effect on the result.)\<close>

definition createParental_with ::
  "(string \<Rightarrow> element list outcome) \<Rightarrow> string \<Rightarrow> element outcome" where
  "createParental_with resolve emmetString =
     (case map trim (js_split emmetString CHR ''>'') of
        [] \<Rightarrow> Some (Inl InvalidEmmetString)
      | firstComponent # components \<Rightarrow>
          if firstComponent = [] then Some (Inl InvalidEmmetString)
          else (case resolve firstComponent of
                  None \<Rightarrow> None
                | Some (Inl e) \<Rightarrow> Some (Inl e)
                | Some (Inr []) \<Rightarrow> Some (Inl TypeError)
                | Some (Inr (parentComponent # _)) \<Rightarrow>
                    forEach_component resolve components parentComponent []))"

text \<open>Lines 86-90, 100-117 and 125-130.\<close>

fun createParalel :: "nat \<Rightarrow> (string \<rightharpoonup> string) \<Rightarrow> string \<Rightarrow> element list outcome"
  and createParental :: "nat \<Rightarrow> (string \<rightharpoonup> string) \<Rightarrow> string \<Rightarrow> element outcome"
  and createHTMLElement :: "nat \<Rightarrow> (string \<rightharpoonup> string) \<Rightarrow> string \<Rightarrow> element list outcome"
where
  "createParalel fuel dividedSections emmetString =
     map_calls (createParental fuel dividedSections)
       (map trim (js_split emmetString CHR ''+''))"
| "createParental fuel dividedSections emmetString =
     createParental_with (createHTMLElement fuel dividedSections) emmetString"
| "createHTMLElement fuel dividedSections component =
     (case dividedSections component of
        Some recorded \<Rightarrow>
          (case fuel of 0 \<Rightarrow> None | Suc n \<Rightarrow> createParalel n dividedSections recorded)
      | None \<Rightarrow>
          (case simplifiedEmmetToElement component of
             Inl e \<Rightarrow> Some (Inl e)
           | Inr e \<Rightarrow> Some (Inr [e])))"

text \<open>Lines 132-136.\<close>

definition emmetToElements :: "nat \<Rightarrow> nat \<Rightarrow> string \<Rightarrow> element list outcome" where
  "emmetToElements seed fuel emmetString =
     (case splitEmmetIntoSections seed (normalize emmetString) of
        (dataString, dividedSections) \<Rightarrow> createParalel fuel dividedSections dataString)"

section \<open>Notions used to state the properties\<close>

text \<open>A string holds an innermost group when it has a \<open>(\<close>, then a run of
  characters without parentheses, then a \<open>)\<close>.\<close>

definition has_group :: "string \<Rightarrow> bool" where
  "has_group s \<longleftrightarrow>
     (\<exists>a g b. s = a @ ''('' @ g @ '')'' @ b \<and> (\<forall>c\<in>set g. not_paren c))"

text \<open>The components a string is cut into: the trimmed pieces between \<open>>\<close> of the
  trimmed pieces between \<open>+\<close>.\<close>

definition components_of :: "string \<Rightarrow> string list" where
  "components_of e =
     concat (map (\<lambda>p. map trim (js_split p CHR ''>'')) (map trim (js_split e CHR ''+'')))"

text \<open>The chain as the specification words it: the elements of each level become
  children of the first element of the level before, after the children that element
  already has.\<close>

fun add_children :: "element \<Rightarrow> element list \<Rightarrow> element" where
  "add_children (Element t i c x a ch) new = Element t i c x a (ch @ new)"

fun nest_chain :: "element \<Rightarrow> element list list \<Rightarrow> element" where
  "nest_chain parent [] = parent"
| "nest_chain parent ([] # levels) = parent"
| "nest_chain parent ((first # others) # levels) =
     add_children parent (nest_chain first levels # others)"

section \<open>Notions used in the proofs\<close>

text \<open>Replacing the node at a path, to state what the loop has built so far.\<close>

fun update_at :: "nat list \<Rightarrow> element \<Rightarrow> element \<Rightarrow> element" where
  "update_at [] v e = v"
| "update_at (k # ks) v (Element t i c x a ch) =
     Element t i c x a (if k < length ch then ch[k := update_at ks v (ch ! k)] else ch)"

text \<open>
  To compare two runs that differ in the random segment, a string that holds
  placeholders is read as a template: a list of characters and of holes, where hole
  \<open>i\<close> stands for the identifier generated for the counter \<open>i\<close>.
\<close>

datatype tok = Ch char | Hole nat

fun inst1 :: "nat \<Rightarrow> tok \<Rightarrow> string" where
  "inst1 seed (Ch c) = [c]"
| "inst1 seed (Hole i) = uniqueIdentifier seed i"

definition inst :: "nat \<Rightarrow> tok list \<Rightarrow> string" where
  "inst seed t = concat (map (inst1 seed) t)"

definition hole_free :: "tok list \<Rightarrow> bool" where
  "hole_free t \<longleftrightarrow> list_all (\<lambda>x. case x of Ch c \<Rightarrow> True | Hole i \<Rightarrow> False) t"

definition clean :: "tok list \<Rightarrow> bool" where
  "clean t \<longleftrightarrow> \<not> sublist (map Ch ''segment_'') t"

text \<open>The map after the groups \<open>sg\<close> were recorded, the latest first.\<close>

primrec mk :: "nat \<Rightarrow> tok list list \<Rightarrow> (string \<rightharpoonup> string)" where
  "mk seed [] = Map.empty"
| "mk seed (g # sg) = (mk seed sg)(uniqueIdentifier seed (length sg) \<mapsto> inst seed g)"

text \<open>Splitting and trimming a template.\<close>

fun t_split :: "tok list \<Rightarrow> char \<Rightarrow> tok list list" where
  "t_split [] sep = [[]]"
| "t_split (x # xs) sep =
     (if x = Ch sep then [] # t_split xs sep
      else (case t_split xs sep of
              p # ps \<Rightarrow> (x # p) # ps
            | [] \<Rightarrow> [[x]]))"

fun tspace :: "tok \<Rightarrow> bool" where
  "tspace (Ch c) = is_space c"
| "tspace (Hole i) = False"

definition t_trim :: "tok list \<Rightarrow> tok list" where
  "t_trim t = rev (dropWhile tspace (rev (dropWhile tspace t)))"

section \<open>The grouping loop terminates\<close>

text \<open>The identifiers hold letters of \<open>segment_\<close> and digits only.\<close>

lemma show_nat_digits: "set (show_nat n) \<subseteq> set ''0123456789''"
proof (induction n rule: show_nat.induct)
  case (1 n)
  have d: "\<And>k. k < 10 \<Longrightarrow> ''0123456789'' ! k \<in> set ''0123456789''"
    by (rule nth_mem) simp
  show ?case
  proof (cases "n < 10")
    case True
    then show ?thesis using d[of n] by (subst show_nat.simps) simp
  next
    case False
    then show ?thesis using 1 d[of "n mod 10"] by (subst show_nat.simps) simp
  qed
qed

lemma uniqueIdentifier_chars:
  "set (uniqueIdentifier seed n) \<subseteq> set ''segment_0123456789''"
proof -
  have "set ''0123456789'' \<subseteq> set ''segment_0123456789''" by simp
  then have "set (show_nat k) \<subseteq> set ''segment_0123456789''" for k
    using show_nat_digits[of k] by (rule order_trans[rotated])
  from this[of seed] this[of n] show ?thesis
    unfolding uniqueIdentifier_def segment_def set_append by simp
qed

lemma takeWhile_dropWhile_Cons:
  "dropWhile P xs = d # rest \<Longrightarrow> xs = takeWhile P xs @ d # rest"
  by (metis takeWhile_dropWhile_id)

lemma dropWhile_append_hit:
  "dropWhile P pre = d # rest \<Longrightarrow> dropWhile P (pre @ ys) = d # rest @ ys"
  by (induction pre) (auto split: if_splits)

text \<open>The match as a decomposition of the string, and what the replacement on line 66
  makes of it: the group the pattern matched is the first occurrence of its own text.\<close>

lemma regPattern_exec_Some:
  "regPattern_exec s = Some g \<Longrightarrow>
   \<exists>pre post. s = pre @ ''('' @ g @ '')'' @ post \<and> regPattern_exec pre = None \<and>
     (\<forall>x\<in>set g. not_paren x) \<and>
     (\<forall>r. replace_first s (''('' @ g @ '')'') r = pre @ r @ post)"
proof (induction s)
  case Nil
  then show ?case by simp
next
  case (Cons c cs)
  show ?case
  proof (cases "c = CHR ''('' \<and> (case dropWhile not_paren cs of d # _ \<Rightarrow> d = CHR '')'' | [] \<Rightarrow> False)")
    case True
    then have g: "g = takeWhile not_paren cs" using Cons.prems by simp
    from True obtain rest where dw: "dropWhile not_paren cs = CHR '')'' # rest"
      by (auto split: list.splits)
    have cs: "cs = g @ CHR '')'' # rest"
      using takeWhile_dropWhile_Cons[OF dw] g by simp
    have "c # cs = [] @ ''('' @ g @ '')'' @ rest" using True cs by simp
    moreover have "\<forall>x\<in>set g. not_paren x" using g by (auto dest: set_takeWhileD)
    moreover have "\<forall>r. replace_first (c # cs) (''('' @ g @ '')'') r = [] @ r @ rest"
      using True cs by simp
    ultimately show ?thesis by (metis regPattern_exec.simps(1))
  next
    case False
    then have ex: "regPattern_exec cs = Some g" using Cons.prems by auto
    from Cons.IH[OF ex] obtain pre post where
      s: "cs = pre @ ''('' @ g @ '')'' @ post" and n: "regPattern_exec pre = None"
      and np: "\<forall>x\<in>set g. not_paren x"
      and r: "\<forall>r. replace_first cs (''('' @ g @ '')'') r = pre @ r @ post" by blast
    have notpre: "\<not> prefix (''('' @ g @ '')'') (c # cs)"
    proof
      assume "prefix (''('' @ g @ '')'') (c # cs)"
      then obtain z where z: "c # cs = (''('' @ g @ '')'') @ z" by (auto simp: prefix_def)
      then have c: "c = CHR ''(''" and cs': "cs = g @ CHR '')'' # z" by auto
      have "takeWhile not_paren cs = g" "dropWhile not_paren cs = CHR '')'' # z"
        using np cs' by (auto simp: takeWhile_append2 dropWhile_append2 not_paren_def)
      with c False show False by simp
    qed
    have n': "regPattern_exec (c # pre) = None"
    proof (cases "dropWhile not_paren pre")
      case Nil
      show ?thesis using n by (simp add: Nil)
    next
      case (Cons d rest)
      then have "dropWhile not_paren cs = d # rest @ ''('' @ g @ '')'' @ post"
        unfolding s by (rule dropWhile_append_hit)
      with False Cons n show ?thesis by auto
    qed
    have "c # cs = (c # pre) @ ''('' @ g @ '')'' @ post" using s by simp
    moreover have "\<forall>r. replace_first (c # cs) (''('' @ g @ '')'') r = (c # pre) @ r @ post"
      using notpre r by auto
    ultimately show ?thesis using n' np by blast
  qed
qed

lemma count_open_uniqueIdentifier:
  "CHR ''('' \<notin> set (uniqueIdentifier seed n)"
  using uniqueIdentifier_chars[of seed n] by auto

termination sections_loop
proof (relation "measure (\<lambda>(seed, s, n, m). length (filter (\<lambda>c. c = CHR ''('') s))")
  show "wf (measure (\<lambda>(seed, s, n, m). length (filter (\<lambda>c. c = CHR ''('') s)))" by simp
next
  fix seed :: nat and emmetString :: string and identifierCount :: nat
    and dividedSections :: "string \<rightharpoonup> string" and g :: string
  assume "regPattern_exec emmetString = Some g"
  from regPattern_exec_Some[OF this] obtain pre post where
    s: "emmetString = pre @ ''('' @ g @ '')'' @ post"
    and r: "\<forall>r. replace_first emmetString (''('' @ g @ '')'') r = pre @ r @ post" by blast
  have "filter (\<lambda>c. c = CHR ''('') (uniqueIdentifier seed identifierCount) = []"
    using count_open_uniqueIdentifier[of seed identifierCount] by (auto simp: filter_empty_conv)
  then show "((seed, replace_first emmetString (''('' @ g @ '')'') (uniqueIdentifier seed identifierCount),
           Suc identifierCount, dividedSections(uniqueIdentifier seed identifierCount \<mapsto> g)),
          seed, emmetString, identifierCount, dividedSections)
         \<in> measure (\<lambda>(seed, s, n, m). length (filter (\<lambda>c. c = CHR ''('') s))"
    using r s by simp
qed

declare sections_loop.simps [simp del]

lemma sections_loop_stop:
  "regPattern_exec s = None \<Longrightarrow> sections_loop seed s n m = (s, m)"
  by (subst sections_loop.simps) simp

lemma sections_loop_step:
  "regPattern_exec s = Some g \<Longrightarrow>
   sections_loop seed s n m =
     sections_loop seed (replace_first s (''('' @ g @ '')'') (uniqueIdentifier seed n)) (Suc n)
       (m(uniqueIdentifier seed n \<mapsto> g))"
  by (subst sections_loop.simps) simp

section \<open>Properties of the string primitives\<close>

lemma js_split_nonempty: "js_split s sep \<noteq> []"
  by (induction s) (auto split: list.splits)

lemma js_split_no_sep: "sep \<notin> set s \<Longrightarrow> js_split s sep = [s]"
  by (induction s) auto

lemma js_split_append:
  "sep \<notin> set a \<Longrightarrow> js_split (a @ sep # b) sep = a # js_split b sep"
  by (induction a) auto

lemma length_js_split: "length (js_split s sep) = Suc (count_list s sep)"
  by (induction s) (auto split: list.splits)

lemma js_split_pieces: "p \<in> set (js_split s sep) \<Longrightarrow> sep \<notin> set p"
  by (induction s arbitrary: p) (auto split: list.splits if_splits)

lemma join_js_split: "join (js_split s sep) [sep] = s"
proof (induction s)
  case Nil
  then show ?case by simp
next
  case (Cons c cs)
  obtain p ps where ps: "js_split cs sep = p # ps"
    using js_split_nonempty[of cs sep] by (cases "js_split cs sep") auto
  show ?case using Cons ps by (cases ps) auto
qed

lemma dropWhile_all: "\<forall>x\<in>set xs. P x \<Longrightarrow> dropWhile P xs = []"
  by (induction xs) auto

lemma set_trim: "set (trim s) \<subseteq> set s"
  unfolding trim_def by (metis set_rev set_dropWhileD subsetI)

lemma trim_Nil [simp]: "trim [] = []"
  by (simp add: trim_def)

lemma collapse_all_space:
  "\<forall>c\<in>set s. is_space c \<Longrightarrow> collapse_spaces s = (if s = [] then [] else '' '')"
  by (cases s) (auto simp: dropWhile_all)

lemma normalize_all_space:
  "\<forall>c\<in>set s. is_space c \<Longrightarrow> normalize s = [] \<or> normalize s = '' ''"
  unfolding normalize_def by (subst collapse_all_space) auto

section \<open>The leaf expander on blank input\<close>

lemma splitEmmetIntoSections_no_group:
  "regPattern_exec s = None \<Longrightarrow> splitEmmetIntoSections seed s = (s, Map.empty)"
  by (simp add: splitEmmetIntoSections_def sections_loop_stop)

text \<open>
  C10. On the empty string and on any string of white space only,
  \<open>simplifiedEmmetToElement\<close> raises nothing and returns the default element: tag name
  \<open>div\<close>, no id, no class name, no text, no attributes, no children. On the same input
  \<open>emmetToElements\<close> raises the "Invalid Emmet string" error, whatever the random
  segment and the depth bound.
\<close>

theorem simplifiedEmmetToElement_blank:
  assumes "\<forall>c\<in>set s. is_space c"
  shows "simplifiedEmmetToElement s = Inr (Element ''div'' None None None [] []) \<and>
         emmetToElements seed fuel s = Some (Inl InvalidEmmetString)"
proof -
  from normalize_all_space[OF assms] show ?thesis
  proof
    assume n: "normalize s = []"
    have "simplifiedEmmetToElement s = Inr (Element ''div'' None None None [] [])"
      by (simp add: simplifiedEmmetToElement_def n inner_text_def lastIndexOf_def
          attribute_block_def tag_id_classes_def convert_to_element_def)
    moreover have "emmetToElements seed fuel s = Some (Inl InvalidEmmetString)"
      by (simp add: emmetToElements_def n splitEmmetIntoSections_no_group
          createParental_with_def)
    ultimately show ?thesis by simp
  next
    assume n: "normalize s = '' ''"
    have "simplifiedEmmetToElement s = Inr (Element ''div'' None None None [] [])"
      by (simp add: simplifiedEmmetToElement_def n inner_text_def lastIndexOf_def
          attribute_block_def tag_id_classes_def convert_to_element_def is_space_def trim_def)
    moreover have "emmetToElements seed fuel s = Some (Inl InvalidEmmetString)"
      by (simp add: emmetToElements_def n splitEmmetIntoSections_no_group
          createParental_with_def is_space_def trim_def)
    ultimately show ?thesis by simp
  qed
qed

theorem simplifiedEmmetToElement_blank_witness:
  "simplifiedEmmetToElement [CHR 0x20, CHR 0x09, CHR 0x20] = Inr (Element ''div'' None None None [] []) \<and>
   emmetToElements 7 2 [CHR 0x20, CHR 0x09, CHR 0x20] = Some (Inl InvalidEmmetString)"
  using simplifiedEmmetToElement_blank[of "[CHR 0x20, CHR 0x09, CHR 0x20]" 7 2]
  by (simp add: is_space_def)

section \<open>Indices and substrings\<close>

lemma takeWhile_neq_length: "c \<in> set s \<Longrightarrow> length (takeWhile (\<lambda>x. x \<noteq> c) s) < length s"
  by (induction s) auto

lemma lastIndexOf_found: "c \<in> set s \<Longrightarrow> lastIndexOf s c \<noteq> - 1"
  using takeWhile_neq_length[of c "rev s"] by (simp add: lastIndexOf_def)

lemma takeWhile_until:
  "c \<notin> set pre \<Longrightarrow> takeWhile (\<lambda>x. x \<noteq> c) (pre @ c # rest) = pre"
  by (induction pre) auto

lemma lastIndexOf_append:
  "c \<notin> set rest \<Longrightarrow> lastIndexOf (pre @ c # rest) c = int (length pre)"
proof -
  assume a: "c \<notin> set rest"
  have "takeWhile (\<lambda>x. x \<noteq> c) (rev rest @ c # rev pre) = rev rest"
    using a takeWhile_until[of c "rev rest" "rev pre"] by simp
  then show ?thesis by (simp add: lastIndexOf_def)
qed

lemma indexOf_append:
  "c \<notin> set pre \<Longrightarrow> indexOf (pre @ c # rest) c = int (length pre)"
  by (simp add: indexOf_def takeWhile_until)

lemma substring_take_drop:
  "0 \<le> a \<Longrightarrow> a \<le> b \<Longrightarrow> b \<le> int (length s) \<Longrightarrow>
   substring s a b = take (nat (b - a)) (drop (nat a) s)"
  by (simp add: substring_def Let_def min_def max_def)

lemma substring_prefix: "substring (pre @ rest) 0 (int (length pre)) = pre"
  by (simp add: substring_take_drop)

lemma substring_middle:
  "substring (pre @ mid @ rest) (int (length pre)) (int (length pre) + int (length mid)) = mid"
  by (simp add: substring_take_drop)

section \<open>Attribute tokens\<close>

lemma parse_attribute_error: "parse_attribute x = Inl e \<Longrightarrow> e = TypeError"
  by (auto simp: parse_attribute_def split: list.splits)

lemma parse_attribute_no_equals:
  "CHR ''='' \<notin> set t \<Longrightarrow> parse_attribute t = Inl TypeError"
proof -
  assume "CHR ''='' \<notin> set t"
  then have "CHR ''='' \<notin> set (trim t)" using set_trim[of t] by auto
  then show ?thesis by (simp add: parse_attribute_def js_split_no_sep)
qed

lemma map_raising_Inl:
  assumes "t \<in> set xs" and "f t = Inl e" and "\<And>x e'. f x = Inl e' \<Longrightarrow> e' = e"
  shows "map_raising f xs = Inl e"
  using assms(1)
proof (induction xs)
  case Nil
  then show ?case by simp
next
  case (Cons x xs)
  show ?case
  proof (cases "f x")
    case (Inl e')
    then have "e' = e" by (rule assms(3))
    with Inl show ?thesis by simp
  next
    case (Inr y)
    then have "t \<noteq> x" using assms(2) by auto
    then have "map_raising f xs = Inl e" using Cons by simp
    with Inr show ?thesis by simp
  qed
qed

lemma attribute_tokens_raise:
  assumes "CHR ''['' \<in> set s1"
    and "t \<in> set (attribute_tokens (attribute_text s1))"
    and "CHR ''='' \<notin> set t"
  shows "attribute_block s1 = Inl TypeError"
proof -
  have "map_raising parse_attribute (attribute_tokens (attribute_text s1)) = Inl TypeError"
    by (rule map_raising_Inl[where f = parse_attribute, OF assms(2) parse_attribute_no_equals[OF assms(3)]])
       (rule parse_attribute_error)
  then show ?thesis
    using lastIndexOf_found[OF assms(1)] by (simp add: attribute_block_def)
qed

lemma attribute_text_block:
  assumes "CHR ''['' \<notin> set body" and "CHR ''['' \<notin> set post"
    and "CHR '']'' \<notin> set pre" and "CHR '']'' \<notin> set body"
  shows "attribute_text (pre @ ''['' @ body @ '']'' @ post) = body"
proof -
  let ?s = "pre @ ''['' @ body @ '']'' @ post"
  have l: "lastIndexOf ?s CHR ''['' = int (length pre)"
    using lastIndexOf_append[of "CHR ''[''" "body @ '']'' @ post" pre] assms(1,2) by simp
  have "indexOf ((pre @ ''['' @ body) @ CHR '']'' # post) CHR '']'' =
      int (length (pre @ ''['' @ body))"
    by (rule indexOf_append) (use assms(3,4) in simp)
  then have i: "indexOf ?s CHR '']'' = int (length pre) + 1 + int (length body)" by simp
  have "substring ((pre @ ''['') @ body @ ('']'' @ post)) (int (length (pre @ ''['')))
          (int (length (pre @ ''['')) + int (length body)) = body"
    by (rule substring_middle)
  then have "substring ?s (int (length pre) + 1) (int (length pre) + 1 + int (length body)) = body"
    by (simp add: add.commute)
  then show ?thesis unfolding attribute_text_def l i .
qed

text \<open>
  C5, amended. Let the string left after the text block be \<open>pre [ body ] post\<close>, where
  the \<open>[\<close> is the last one of that string (none in \<open>body\<close> or \<open>post\<close>), the \<open>]\<close> is
  the first one after it (none in \<open>body\<close>) and no \<open>]\<close> occurs before that \<open>[\<close> (none
  in \<open>pre\<close>). When one of the tokens of \<open>body\<close>, the non-blank pieces of its trimmed
  text between spaces, holds no \<open>=\<close>, \<open>simplifiedEmmetToElement\<close> raises instead of
  returning an element. The exception is the \<open>TypeError\<close> of reading \<open>indexOf\<close> from
  the missing second part of the token.
\<close>

theorem attribute_block_token_without_equals:
  assumes "inner_text (normalize s) = (innerText, pre @ ''['' @ body @ '']'' @ post)"
    and "CHR ''['' \<notin> set body" and "CHR ''['' \<notin> set post"
    and "CHR '']'' \<notin> set pre" and "CHR '']'' \<notin> set body"
    and "t \<in> set (attribute_tokens body)"
    and "CHR ''='' \<notin> set t"
  shows "simplifiedEmmetToElement s = Inl TypeError"
proof -
  let ?s1 = "pre @ ''['' @ body @ '']'' @ post"
  have b: "attribute_text ?s1 = body"
    by (rule attribute_text_block[OF assms(2) assms(3) assms(4) assms(5)])
  have "CHR ''['' \<in> set ?s1" by simp
  moreover have "t \<in> set (attribute_tokens (attribute_text ?s1))"
    unfolding b by (rule assms(6))
  ultimately have "attribute_block ?s1 = Inl TypeError"
    using assms(7) by (rule attribute_tokens_raise)
  then show ?thesis by (simp add: simplifiedEmmetToElement_def assms(1))
qed

theorem attribute_block_token_without_equals_witness:
  "inner_text (normalize ''div[foo]'') = ([], ''div'' @ ''['' @ ''foo'' @ '']'' @ []) \<and>
   CHR ''['' \<notin> set ''foo'' \<and> CHR ''['' \<notin> set [] \<and>
   CHR '']'' \<notin> set ''div'' \<and> CHR '']'' \<notin> set ''foo'' \<and>
   ''foo'' \<in> set (attribute_tokens ''foo'') \<and>
   CHR ''='' \<notin> set ''foo'' \<and>
   simplifiedEmmetToElement ''div[foo]'' = Inl TypeError"
proof -
  have 1: "inner_text (normalize ''div[foo]'') = ([], ''div'' @ ''['' @ ''foo'' @ '']'' @ [])"
    by code_simp
  have 2: "CHR ''['' \<notin> set ''foo''" by simp
  have 3: "CHR ''['' \<notin> set ([] :: string)" by simp
  have 4: "CHR '']'' \<notin> set ''div''" by simp
  have 5: "CHR '']'' \<notin> set ''foo''" by simp
  have 6: "''foo'' \<in> set (attribute_tokens ''foo'')" by code_simp
  have 7: "CHR ''='' \<notin> set ''foo''" by simp
  show ?thesis
    by (rule conjI[OF 1 conjI[OF 2 conjI[OF 3 conjI[OF 4 conjI[OF 5 conjI[OF 6 conjI[OF 7
          attribute_block_token_without_equals[OF 1 2 3 4 5 6 7]]]]]]]])
qed

text \<open>The attribute text is cut at the first \<open>]\<close> of the whole string, not at the first
  one after the last \<open>[\<close>: in \<open>a]=[foo]\<close> the block \<open>[foo]\<close> holds the token \<open>foo\<close>
  without \<open>=\<close>, yet the attribute text read is \<open>]=[\<close> and an element is returned. A
  block that stands after the text block is cut away with it and never read.\<close>

theorem attribute_block_counterexample:
  "''foo'' \<in> set (attribute_tokens ''foo'') \<and> CHR ''='' \<notin> set ''foo'' \<and>
   inner_text (normalize ''a]=[foo]'') = ([], ''a]=[foo]'') \<and>
   simplifiedEmmetToElement ''a]=[foo]'' =
     Inr (Element ''a]=[foo]'' None None None [('']'', ''['')] []) \<and>
   simplifiedEmmetToElement ''div{x}[foo]'' =
     Inr (Element ''div'' None None (Some ''x'') [] [])"
  by code_simp

section \<open>The text block\<close>

lemma inner_text_decompose:
  assumes "CHR ''{'' \<notin> set rest"
  shows "snd (inner_text (pre @ ''{'' @ rest)) = pre"
proof -
  have "lastIndexOf (pre @ CHR ''{'' # rest) CHR ''{'' = int (length pre)"
    using assms by (rule lastIndexOf_append)
  then show ?thesis
    using substring_prefix[of pre "CHR ''{'' # rest"] by (simp add: inner_text_def)
qed

lemma inner_text_between:
  assumes "CHR ''{'' \<notin> set txt" and "CHR ''{'' \<notin> set post"
    and "CHR ''}'' \<notin> set pre" and "CHR ''}'' \<notin> set txt"
  shows "fst (inner_text (pre @ ''{'' @ txt @ ''}'' @ post)) = txt"
proof -
  let ?s = "pre @ ''{'' @ txt @ ''}'' @ post"
  have l: "lastIndexOf ?s CHR ''{'' = int (length pre)"
    using lastIndexOf_append[of "CHR ''{''" "txt @ ''}'' @ post" pre] assms by simp
  have i: "indexOf ?s CHR ''}'' = int (length (pre @ ''{'')) + int (length txt)"
    using indexOf_append[of "CHR ''}''" "pre @ ''{'' @ txt" post] assms by simp
  have "substring ((pre @ ''{'') @ txt @ (''}'' @ post)) (int (length (pre @ ''{'')))
          (int (length (pre @ ''{'')) + int (length txt)) = txt"
    by (rule substring_middle)
  then show ?thesis using l i by (simp add: inner_text_def Let_def add.commute)
qed

text \<open>
  C2, amended. When the normalised token holds a \<open>{\<close>, everything from the last \<open>{\<close>
  to the end is removed before the attributes and the tag, id and classes are read. The
  extracted text is the substring strictly between the last \<open>{\<close> and the first \<open>}\<close>
  after it provided no \<open>}\<close> stands before that \<open>{\<close>: the code looks for the first
  \<open>}\<close> of the whole token.
\<close>

theorem inner_text_last_brace:
  assumes "normalize e = pre @ ''{'' @ rest" and "CHR ''{'' \<notin> set rest"
  shows "snd (inner_text (normalize e)) = pre \<and>
         simplifiedEmmetToElement e =
           (case attribute_block pre of
              Inl err \<Rightarrow> Inl err
            | Inr (attrs, s2) \<Rightarrow>
                (case tag_id_classes s2 of
                   (tag, ident, classes) \<Rightarrow>
                     Inr (convert_to_element tag ident classes
                            (fst (inner_text (normalize e))) attrs))) \<and>
         (\<forall>txt post. rest = txt @ ''}'' @ post \<and> CHR ''}'' \<notin> set txt \<and> CHR ''}'' \<notin> set pre
            \<longrightarrow> fst (inner_text (normalize e)) = txt)"
proof (intro conjI allI impI)
  show s: "snd (inner_text (normalize e)) = pre"
    unfolding assms(1) using assms(2) by (rule inner_text_decompose)
  show "simplifiedEmmetToElement e =
           (case attribute_block pre of
              Inl err \<Rightarrow> Inl err
            | Inr (attrs, s2) \<Rightarrow>
                (case tag_id_classes s2 of
                   (tag, ident, classes) \<Rightarrow>
                     Inr (convert_to_element tag ident classes
                            (fst (inner_text (normalize e))) attrs)))"
    using s by (auto simp: simplifiedEmmetToElement_def split: prod.splits sum.splits)
next
  fix body post
  assume a: "rest = body @ ''}'' @ post \<and> CHR ''}'' \<notin> set body \<and> CHR ''}'' \<notin> set pre"
  then have "CHR ''{'' \<notin> set body" "CHR ''{'' \<notin> set post" using assms(2) by auto
  then show "fst (inner_text (normalize e)) = body"
    unfolding assms(1) using a inner_text_between[of body post pre] by simp
qed

theorem inner_text_last_brace_witness:
  "normalize ''button#submit{Submit}'' = ''button#submit'' @ ''{'' @ ''Submit}'' \<and>
   CHR ''{'' \<notin> set ''Submit}'' \<and>
   inner_text (normalize ''button#submit{Submit}'') = (''Submit'', ''button#submit'')"
proof -
  have n: "normalize ''button#submit{Submit}'' = ''button#submit'' @ ''{'' @ ''Submit}''"
    by code_simp
  have b: "CHR ''{'' \<notin> set ''Submit}''" by simp
  note t = inner_text_last_brace[OF n b]
  from t have 1: "snd (inner_text (normalize ''button#submit{Submit}'')) = ''button#submit''"
    by (rule conjunct1)
  from t have "''Submit}'' = ''Submit'' @ ''}'' @ [] \<and> CHR ''}'' \<notin> set ''Submit'' \<and>
      CHR ''}'' \<notin> set ''button#submit'' \<longrightarrow>
      fst (inner_text (normalize ''button#submit{Submit}'')) = ''Submit''"
    by blast
  then have 2: "fst (inner_text (normalize ''button#submit{Submit}'')) = ''Submit''" by simp
  have "inner_text (normalize ''button#submit{Submit}'') = (''Submit'', ''button#submit'')"
    using 1 2 by (metis prod.collapse)
  with n b show ?thesis by (intro conjI)
qed

text \<open>In \<open>a}b{c}\<close> the first \<open>}\<close> stands before the last \<open>{\<close>: the text is
  \<open>}b{\<close>, not \<open>c\<close>.\<close>

theorem inner_text_first_brace_counterexample:
  "fst (inner_text (normalize ''a}b{c}'')) = ''}b{'' \<and>
   simplifiedEmmetToElement ''a}b{c}'' = Inr (Element ''a}b'' None None (Some ''}b{'') [] [])"
  by code_simp

section \<open>Attribute names and values\<close>

lemma hd_js_split: "hd (js_split s sep) = takeWhile (\<lambda>c. c \<noteq> sep) s"
proof (induction s)
  case Nil
  then show ?case by simp
next
  case (Cons c cs)
  then show ?case using js_split_nonempty[of cs sep] by (cases "js_split cs sep") auto
qed

lemma js_split_Cons: "\<exists>ps. js_split s sep = takeWhile (\<lambda>c. c \<noteq> sep) s # ps"
  using hd_js_split[of s sep] js_split_nonempty[of s sep]
  by (cases "js_split s sep") auto

lemma quoted_value:
  assumes "CHR 0x22 \<notin> set w"
  shows "substring (CHR 0x22 # u @ CHR 0x22 # w) 1 (lastIndexOf (CHR 0x22 # u @ CHR 0x22 # w) CHR 0x22) = u"
proof -
  have "lastIndexOf ((CHR 0x22 # u) @ CHR 0x22 # w) CHR 0x22 = int (length (CHR 0x22 # u))"
    using assms by (rule lastIndexOf_append)
  moreover have "substring ([CHR 0x22] @ u @ (CHR 0x22 # w)) (int (length [CHR 0x22]))
      (int (length [CHR 0x22]) + int (length u)) = u"
    by (rule substring_middle)
  ultimately show ?thesis by (simp add: add.commute)
qed

text \<open>
  C6, amended. An attribute token is split on every \<open>=\<close>. The name is the text before
  the first \<open>=\<close>; the raw value is the text between the first \<open>=\<close> and the second one
  (or the end of the token), and what follows a second \<open>=\<close> is dropped. A raw value
  without a double quote is stored as it is; one with a double quote is stored as
  \<open>substring(1, lastIndexOf('"'))\<close>, which is the text strictly between the first and
  the last double quote when the raw value begins with a double quote and holds a second
  one.
\<close>

theorem parse_attribute_parts:
  assumes "trim attr = name @ ''='' @ rest" and "CHR ''='' \<notin> set name"
  shows "\<exists>v. parse_attribute attr = Inr (name, v) \<and>
           (let raw = takeWhile (\<lambda>c. c \<noteq> CHR ''='') rest
            in (CHR 0x22 \<notin> set raw \<longrightarrow> v = raw) \<and>
               (CHR 0x22 \<in> set raw \<longrightarrow> v = substring raw 1 (lastIndexOf raw CHR 0x22)) \<and>
               (\<forall>u w. raw = CHR 0x22 # u @ CHR 0x22 # w \<and> CHR 0x22 \<notin> set w \<longrightarrow> v = u))"
proof -
  define raw where "raw = takeWhile (\<lambda>c. c \<noteq> CHR ''='') rest"
  define v where "v = (if indexOf raw CHR 0x22 \<noteq> - 1
            then substring raw 1 (lastIndexOf raw CHR 0x22) else raw)"
  obtain ps where ps: "js_split rest CHR ''='' = raw # ps"
    using js_split_Cons[of rest "CHR ''=''"] unfolding raw_def by blast
  have sp: "js_split (trim attr) CHR ''='' = name # raw # ps"
    unfolding assms(1) using js_split_append[OF assms(2), of rest] ps by simp
  have p: "parse_attribute attr = Inr (name, v)"
    by (simp add: parse_attribute_def sp v_def)
  have i: "indexOf raw CHR 0x22 \<noteq> - 1 \<longleftrightarrow> CHR 0x22 \<in> set raw"
    by (simp add: indexOf_def)
  have a: "CHR 0x22 \<notin> set raw \<longrightarrow> v = raw" using i by (simp add: v_def)
  have b: "CHR 0x22 \<in> set raw \<longrightarrow> v = substring raw 1 (lastIndexOf raw CHR 0x22)"
    using i by (simp add: v_def)
  have c: "\<forall>u w. raw = CHR 0x22 # u @ CHR 0x22 # w \<and> CHR 0x22 \<notin> set w \<longrightarrow> v = u"
  proof (intro allI impI)
    fix u w
    assume h: "raw = CHR 0x22 # u @ CHR 0x22 # w \<and> CHR 0x22 \<notin> set w"
    then have "CHR 0x22 \<in> set raw" by simp
    then have "v = substring raw 1 (lastIndexOf raw CHR 0x22)" using b by simp
    also have "\<dots> = u" using h quoted_value[of w u] by simp
    finally show "v = u" .
  qed
  have f: "parse_attribute attr = Inr (name, v) \<and>
        ((CHR 0x22 \<notin> set raw \<longrightarrow> v = raw) \<and>
         (CHR 0x22 \<in> set raw \<longrightarrow> v = substring raw 1 (lastIndexOf raw CHR 0x22)) \<and>
         (\<forall>u w. raw = CHR 0x22 # u @ CHR 0x22 # w \<and> CHR 0x22 \<notin> set w \<longrightarrow> v = u))"
    using p a b c by (intro conjI)
  show ?thesis unfolding Let_def raw_def[symmetric] by (rule exI[of _ v]) (rule f)
qed

theorem parse_attribute_parts_witness:
  "trim ''href=\"/x\"'' = ''href'' @ ''='' @ ''\"/x\"'' \<and> CHR ''='' \<notin> set ''href'' \<and>
   parse_attribute ''href=\"/x\"'' = Inr (''href'', ''/x'')"
proof -
  have t: "trim ''href=\"/x\"'' = ''href'' @ ''='' @ ''\"/x\"''" by code_simp
  have n: "CHR ''='' \<notin> set ''href''" by simp
  have r: "takeWhile (\<lambda>c. c \<noteq> CHR ''='') ''\"/x\"'' = CHR 0x22 # ''/x'' @ CHR 0x22 # []"
    by simp
  from parse_attribute_parts[OF t n] obtain v where
    p: "parse_attribute ''href=\"/x\"'' = Inr (''href'', v)"
    and q: "\<forall>u w. takeWhile (\<lambda>c. c \<noteq> CHR ''='') ''\"/x\"'' = CHR 0x22 # u @ CHR 0x22 # w \<and>
              CHR 0x22 \<notin> set w \<longrightarrow> v = u"
    unfolding Let_def by blast
  from q r have "v = ''/x''" by (metis empty_iff empty_set)
  with p t n show ?thesis by (intro conjI) simp_all
qed

text \<open>What follows a second \<open>=\<close> is lost, and a raw value that does not begin with its
  double quote keeps the quote and loses its first character.\<close>

theorem parse_attribute_counterexample:
  "parse_attribute ''href=x=y'' = Inr (''href'', ''x'') \<and>
   parse_attribute ''a=x\"y\"'' = Inr (''a'', ''\"y'') \<and>
   simplifiedEmmetToElement ''a[href=x=y]'' = Inr (Element ''a'' None None None [(''href'', ''x'')] [])"
  by code_simp

section \<open>Tag, id and classes\<close>

lemma tag_id_classes_parts:
  "js_split s CHR ''.'' = beforeClasses # raw \<Longrightarrow>
   tag_id_classes s =
     (if trim (takeWhile (\<lambda>c. c \<noteq> CHR ''#'') beforeClasses) = [] then ''div''
      else trim (takeWhile (\<lambda>c. c \<noteq> CHR ''#'') beforeClasses),
      case tl (js_split beforeClasses CHR ''#'') of [] \<Rightarrow> None | ident # _ \<Rightarrow> Some ident,
      map trim raw)"
  using js_split_Cons[of beforeClasses "CHR ''#''"]
  by (auto simp: tag_id_classes_def split: list.splits)

text \<open>
  C7. Splitting the string left after the text and attribute blocks on \<open>.\<close> loses
  nothing: the pieces hold no \<open>.\<close> and joined with \<open>.\<close> they give the string
  back. The first piece is the tag and id part; every other piece, empty ones between
  consecutive dots included, is a class, so there are as many classes as dots; each class
  is the trimmed piece; and the tag name is the trimmed text before the first \<open>#\<close> of
  the first piece, or \<open>div\<close> when that is empty.
\<close>

theorem tag_id_classes_split:
  "\<exists>beforeClasses raw.
      join (beforeClasses # raw) ''.'' = s \<and>
      (\<forall>p\<in>set (beforeClasses # raw). CHR ''.'' \<notin> set p) \<and>
      length raw = count_list s CHR ''.'' \<and>
      snd (snd (tag_id_classes s)) = map trim raw \<and>
      fst (tag_id_classes s) =
        (if trim (takeWhile (\<lambda>c. c \<noteq> CHR ''#'') beforeClasses) = [] then ''div''
         else trim (takeWhile (\<lambda>c. c \<noteq> CHR ''#'') beforeClasses))"
proof -
  obtain b raw where sp: "js_split s CHR ''.'' = b # raw"
    using js_split_nonempty[of s "CHR ''.''"] by (cases "js_split s CHR ''.''") auto
  have 1: "join (b # raw) ''.'' = s" using join_js_split[of s "CHR ''.''"] sp by simp
  have 2: "\<forall>p\<in>set (b # raw). CHR ''.'' \<notin> set p"
    using js_split_pieces[of _ s "CHR ''.''"] sp by simp
  have 3: "length raw = count_list s CHR ''.''"
    using length_js_split[of s "CHR ''.''"] sp by simp
  have 4: "snd (snd (tag_id_classes s)) = map trim raw"
    by (simp add: tag_id_classes_parts[OF sp])
  have 5: "fst (tag_id_classes s) =
        (if trim (takeWhile (\<lambda>c. c \<noteq> CHR ''#'') b) = [] then ''div''
         else trim (takeWhile (\<lambda>c. c \<noteq> CHR ''#'') b))"
    by (simp add: tag_id_classes_parts[OF sp])
  show ?thesis
    by (rule exI[of _ b], rule exI[of _ raw]) (rule conjI[OF 1 conjI[OF 2 conjI[OF 3 conjI[OF 4 5]]]])
qed

theorem tag_id_classes_split_witness:
  "length (snd (snd (tag_id_classes '' .a..b ''))) = 3 \<and>
   tag_id_classes '' .a..b '' = (''div'', None, [''a'', [], ''b'']) \<and>
   simplifiedEmmetToElement '' .a..b '' = Inr (Element ''div'' None (Some ''a  b'') None [] [])"
proof -
  from tag_id_classes_split[of "'' .a..b ''"] obtain b raw where
    l: "length raw = count_list '' .a..b '' CHR ''.''"
    and c: "snd (snd (tag_id_classes '' .a..b '')) = map trim raw" by blast
  have "count_list '' .a..b '' CHR ''.'' = 3" by simp
  with l c have 1: "length (snd (snd (tag_id_classes '' .a..b ''))) = 3" by simp
  have 2: "tag_id_classes '' .a..b '' = (''div'', None, [''a'', [], ''b''])" by code_simp
  have 3: "simplifiedEmmetToElement '' .a..b '' = Inr (Element ''div'' None (Some ''a  b'') None [] [])"
    by code_simp
  show ?thesis by (rule conjI[OF 1 conjI[OF 2 3]])
qed

section \<open>Resolutions are never empty\<close>

lemma map_calls_length:
  "map_calls f xs = Some (Inr ys) \<Longrightarrow> length ys = length xs"
  by (induction xs arbitrary: ys) (auto split: option.splits sum.splits)

lemma createParalel_length:
  assumes "createParalel fuel ds s = Some (Inr es)"
  shows "length es = length (js_split s CHR ''+'')"
  using map_calls_length[of "createParental fuel ds" "map trim (js_split s CHR ''+'')" es] assms
  by simp

text \<open>
  C9. The split on \<open>+\<close> gives at least one piece, and when \<open>createParalel\<close> returns
  it returns one element for each piece, hence at least one. So whenever
  \<open>createHTMLElement\<close> returns, for a placeholder or for a leaf, its array is not
  empty and has a first element.
\<close>

theorem resolution_never_empty:
  "js_split s CHR ''+'' \<noteq> [] \<and>
   (createParalel fuel ds s = Some (Inr es) \<longrightarrow>
      length es = length (js_split s CHR ''+'') \<and> es \<noteq> []) \<and>
   (createHTMLElement fuel ds component = Some (Inr es') \<longrightarrow> es' \<noteq> [])"
proof (intro conjI impI)
  show "js_split s CHR ''+'' \<noteq> []" by (rule js_split_nonempty)
next
  assume "createParalel fuel ds s = Some (Inr es)"
  then show "length es = length (js_split s CHR ''+'')" by (rule createParalel_length)
next
  assume "createParalel fuel ds s = Some (Inr es)"
  then have "length es = length (js_split s CHR ''+'')" by (rule createParalel_length)
  then show "es \<noteq> []" using js_split_nonempty[of s "CHR ''+''"] by auto
next
  assume r: "createHTMLElement fuel ds component = Some (Inr es')"
  show "es' \<noteq> []"
  proof (cases "ds component")
    case None
    then show ?thesis using r by (auto split: sum.splits)
  next
    case (Some t)
    show ?thesis
    proof (cases fuel)
      case 0
      then show ?thesis using r Some by simp
    next
      case (Suc n)
      then have "createParalel n ds t = Some (Inr es')" using r Some by simp
      then have "length es' = length (js_split t CHR ''+'')" by (rule createParalel_length)
      then show ?thesis using js_split_nonempty[of t "CHR ''+''"] by auto
    qed
  qed
qed

theorem resolution_never_empty_witness:
  "createParalel 0 Map.empty ''div + span'' =
     Some (Inr [Element ''div'' None None None [] [], Element ''span'' None None None [] []]) \<and>
   createHTMLElement 1 [''g'' \<mapsto> ''a+b''] ''g'' =
     Some (Inr [Element ''a'' None None None [] [], Element ''b'' None None None [] []]) \<and>
   length [Element ''div'' None None None [] [], Element ''span'' None None None [] []] =
     length (js_split ''div + span'' CHR ''+'') \<and>
   [Element ''a'' None None None [] [], Element ''b'' None None None [] []] \<noteq> []"
proof -
  have 1: "createParalel 0 Map.empty ''div + span'' =
     Some (Inr [Element ''div'' None None None [] [], Element ''span'' None None None [] []])"
    by code_simp
  have 2: "createHTMLElement 1 [''g'' \<mapsto> ''a+b''] ''g'' =
     Some (Inr [Element ''a'' None None None [] [], Element ''b'' None None None [] []])"
    by code_simp
  from 1 resolution_never_empty[of "''div + span''" 0 Map.empty
      "[Element ''div'' None None None [] [], Element ''span'' None None None [] []]"]
  have 3: "length [Element ''div'' None None None [] [], Element ''span'' None None None [] []] =
     length (js_split ''div + span'' CHR ''+'')" by blast
  from 2 resolution_never_empty[of _ 1 "[''g'' \<mapsto> ''a+b'']" _ "''g''"
      "[Element ''a'' None None None [] [], Element ''b'' None None None [] []]"]
  have 4: "[Element ''a'' None None None [] [], Element ''b'' None None None [] []] \<noteq> []"
    by blast
  show ?thesis by (rule conjI[OF 1 conjI[OF 2 conjI[OF 3 4]]])
qed

section \<open>Grouping\<close>

lemma run_then_close:
  assumes "\<forall>c\<in>set g. not_paren c"
  shows "takeWhile not_paren (g @ CHR '')'' # b) = g"
    and "dropWhile not_paren (g @ CHR '')'' # b) = CHR '')'' # b"
  using assms by (simp_all add: takeWhile_append2 dropWhile_append2 not_paren_def)

lemma regPattern_exec_head:
  assumes "\<forall>c\<in>set g. not_paren c"
  shows "regPattern_exec (CHR ''('' # g @ CHR '')'' # b) = Some g"
  unfolding regPattern_exec.simps run_then_close[OF assms] by simp

lemma has_group_exec: "has_group s \<longleftrightarrow> regPattern_exec s \<noteq> None"
proof
  assume "has_group s"
  then obtain a g b where s: "s = a @ ''('' @ g @ '')'' @ b" and g: "\<forall>c\<in>set g. not_paren c"
    unfolding has_group_def by blast
  have "regPattern_exec (a @ CHR ''('' # g @ CHR '')'' # b) \<noteq> None"
  proof (induction a)
    case Nil
    then show ?case using regPattern_exec_head[OF g] by simp
  next
    case (Cons c a)
    then show ?case by simp
  qed
  then show "regPattern_exec s \<noteq> None" using s by simp
next
  assume "regPattern_exec s \<noteq> None"
  then obtain g where "regPattern_exec s = Some g" by blast
  from regPattern_exec_Some[OF this] show "has_group s" unfolding has_group_def by blast
qed

lemma no_close_after_prefix:
  assumes "regPattern_exec (CHR ''('' # pre) = None"
  shows "\<not> (\<exists>z. dropWhile not_paren (pre @ CHR ''('' # rest) = CHR '')'' # z)"
proof (cases "dropWhile not_paren pre")
  case Nil
  then have "\<forall>c\<in>set pre. not_paren c" by (simp add: dropWhile_eq_Nil_conv)
  then have "dropWhile not_paren (pre @ CHR ''('' # rest) = CHR ''('' # rest"
    by (simp add: dropWhile_append2 not_paren_def)
  then show ?thesis by simp
next
  case (Cons d w)
  then have "dropWhile not_paren (pre @ CHR ''('' # rest) = d # w @ CHR ''('' # rest"
    by (rule dropWhile_append_hit)
  moreover have "d \<noteq> CHR '')''" using assms Cons by (auto split: if_splits)
  ultimately show ?thesis by simp
qed

lemma first_group:
  assumes "regPattern_exec pre = None" and "\<forall>c\<in>set inner. not_paren c"
  shows "regPattern_exec (pre @ ''('' @ inner @ '')'' @ post) = Some inner \<and>
         replace_first (pre @ ''('' @ inner @ '')'' @ post) (''('' @ inner @ '')'') r =
           pre @ r @ post"
  using assms(1)
proof (induction pre)
  case Nil
  show ?case using regPattern_exec_head[OF assms(2), of post] by simp
next
  case (Cons c pre)
  have n: "regPattern_exec pre = None" using Cons.prems by (auto split: if_splits)
  define pat where "pat = ''('' @ inner @ '')''"
  define tail where "tail = pre @ ''('' @ inner @ '')'' @ post"
  have tail: "tail = pre @ CHR ''('' # inner @ CHR '')'' # post" by (simp add: tail_def)
  have nomatch: "c = CHR ''('' \<Longrightarrow> \<not> (\<exists>z. dropWhile not_paren tail = CHR '')'' # z)"
    unfolding tail using no_close_after_prefix[of pre "inner @ CHR '')'' # post"] Cons.prems by simp
  have e: "regPattern_exec (c # tail) = regPattern_exec tail"
    using nomatch by (auto split: list.splits)
  have np: "\<not> prefix pat (c # tail)"
  proof
    assume "prefix pat (c # tail)"
    then obtain z where z: "c # tail = pat @ z" by (auto simp: prefix_def)
    then have c: "c = CHR ''(''" and "tail = inner @ CHR '')'' # z" by (auto simp: pat_def)
    then have "dropWhile not_paren tail = CHR '')'' # z"
      using run_then_close(2)[OF assms(2), of z] by simp
    with nomatch[OF c] show False by blast
  qed
  have "replace_first (c # tail) pat r = c # replace_first tail pat r"
    using np by (simp only: replace_first.simps if_False)
  moreover have "regPattern_exec tail = Some inner \<and> replace_first tail pat r = pre @ r @ post"
    using Cons.IH[OF n] by (simp add: tail_def pat_def)
  ultimately have "regPattern_exec (c # tail) = Some inner \<and>
      replace_first (c # tail) pat r = (c # pre) @ r @ post"
    using e by simp
  then show ?case by (simp add: tail_def pat_def)
qed

lemma digit_inj:
  assumes "i < 10" and "j < 10" and "''0123456789'' ! i = ''0123456789'' ! j"
  shows "i = j"
proof -
  have "distinct ''0123456789''" by simp
  moreover have "i < length ''0123456789''" "j < length ''0123456789''" using assms by simp_all
  ultimately show ?thesis using assms(3) by (simp only: nth_eq_iff_index_eq)
qed

lemma show_nat_small: "n < 10 \<Longrightarrow> show_nat n = [''0123456789'' ! n]"
  by (subst show_nat.simps) simp

lemma show_nat_large:
  "\<not> n < 10 \<Longrightarrow> show_nat n = show_nat (n div 10) @ [''0123456789'' ! (n mod 10)]"
  by (subst show_nat.simps) simp

lemma show_nat_nonempty: "show_nat n \<noteq> []"
  by (cases "n < 10") (simp_all add: show_nat_small show_nat_large)

lemma show_nat_length: "length (show_nat n) = 1 \<longleftrightarrow> n < 10"
proof (cases "n < 10")
  case True
  then show ?thesis by (simp add: show_nat_small)
next
  case False
  have "length (show_nat n) = Suc (length (show_nat (n div 10)))"
    by (simp add: show_nat_large[OF False])
  moreover have "length (show_nat (n div 10)) \<noteq> 0" using show_nat_nonempty by simp
  ultimately have "length (show_nat n) \<noteq> 1" by simp
  then show ?thesis using False by simp
qed

lemma show_nat_inj: "show_nat n = show_nat k \<Longrightarrow> n = k"
proof (induction n arbitrary: k rule: show_nat.induct)
  case (1 n)
  have same: "n < 10 \<longleftrightarrow> k < 10"
    using show_nat_length[of n] show_nat_length[of k] "1.prems" by simp
  show ?case
  proof (cases "n < 10")
    case True
    then have k: "k < 10" using same by simp
    have "[''0123456789'' ! n] = [''0123456789'' ! k]"
      using "1.prems" unfolding show_nat_small[OF True] show_nat_small[OF k] .
    then show ?thesis using digit_inj[OF True k] by simp
  next
    case False
    then have k: "\<not> k < 10" using same by simp
    have "show_nat (n div 10) @ [''0123456789'' ! (n mod 10)] =
          show_nat (k div 10) @ [''0123456789'' ! (k mod 10)]"
      using "1.prems" unfolding show_nat_large[OF False] show_nat_large[OF k] .
    then have d: "show_nat (n div 10) = show_nat (k div 10)"
      and m: "''0123456789'' ! (n mod 10) = ''0123456789'' ! (k mod 10)"
      by simp_all
    have "n div 10 = k div 10" using "1.IH"[OF False d] .
    moreover have "n mod 10 = k mod 10" using digit_inj[OF _ _ m] by simp
    ultimately show ?thesis by (metis div_mult_mod_eq)
  qed
qed

lemma uniqueIdentifier_inj: "uniqueIdentifier seed k = uniqueIdentifier seed n \<Longrightarrow> k = n"
  by (simp add: uniqueIdentifier_def show_nat_inj)

lemma uniqueIdentifier_not_paren: "\<forall>c\<in>set (uniqueIdentifier seed n). not_paren c"
  using uniqueIdentifier_chars[of seed n] by (auto simp: not_paren_def)

lemma sections_loop_no_group: "\<not> has_group (fst (sections_loop seed s n m))"
proof (induction seed s n m rule: sections_loop.induct)
  case (1 seed s n m)
  show ?case
  proof (cases "regPattern_exec s")
    case None
    then show ?thesis by (simp add: sections_loop_stop has_group_exec)
  next
    case (Some g)
    show ?thesis unfolding sections_loop_step[OF Some] by (rule "1.IH"[OF Some])
  qed
qed

text \<open>
  C3. While the string holds an innermost group, the loop replaces the first one, its
  parentheses included, by the identifier generated for the current counter, records the
  identifier with the group's inner text in the map and goes on with the next counter. A
  string without such a group is returned as it is, with the map unchanged, whatever
  unmatched parentheses it holds; the loop always ends, raises nothing, and no group is
  left in its result. The identifier holds no parenthesis and differs from the identifier
  of every other counter.
\<close>

theorem sections_loop_groups:
  "(\<forall>pre inner post.
       s = pre @ ''('' @ inner @ '')'' @ post \<and> (\<forall>c\<in>set inner. not_paren c) \<and> \<not> has_group pre \<longrightarrow>
       sections_loop seed s n m =
         sections_loop seed (pre @ uniqueIdentifier seed n @ post) (Suc n)
           (m(uniqueIdentifier seed n \<mapsto> inner))) \<and>
   (\<not> has_group s \<longrightarrow> sections_loop seed s n m = (s, m)) \<and>
   \<not> has_group (fst (sections_loop seed s n m)) \<and>
   (\<forall>c\<in>set (uniqueIdentifier seed n). not_paren c) \<and>
   (\<forall>k. uniqueIdentifier seed k = uniqueIdentifier seed n \<longrightarrow> k = n)"
proof (intro conjI allI impI)
  fix pre inner post
  assume a: "s = pre @ ''('' @ inner @ '')'' @ post \<and> (\<forall>c\<in>set inner. not_paren c) \<and> \<not> has_group pre"
  then have "regPattern_exec pre = None" by (simp add: has_group_exec)
  from first_group[OF this, of inner post "uniqueIdentifier seed n"] a
  have "regPattern_exec s = Some inner"
    and "replace_first s (''('' @ inner @ '')'') (uniqueIdentifier seed n) =
         pre @ uniqueIdentifier seed n @ post" by simp_all
  then show "sections_loop seed s n m =
         sections_loop seed (pre @ uniqueIdentifier seed n @ post) (Suc n)
           (m(uniqueIdentifier seed n \<mapsto> inner))"
    by (simp add: sections_loop_step)
next
  assume "\<not> has_group s"
  then show "sections_loop seed s n m = (s, m)" by (simp add: has_group_exec sections_loop_stop)
next
  show "\<not> has_group (fst (sections_loop seed s n m))" by (rule sections_loop_no_group)
next
  show "\<forall>c\<in>set (uniqueIdentifier seed n). not_paren c" by (rule uniqueIdentifier_not_paren)
next
  fix k
  assume "uniqueIdentifier seed k = uniqueIdentifier seed n"
  then show "k = n" by (rule uniqueIdentifier_inj)
qed

theorem sections_loop_groups_witness:
  "sections_loop 5 ''a>(b+(c>d)+e)>f('' 0 Map.empty =
     sections_loop 5 ''a>(b+segment_50+e)>f('' 1 [''segment_50'' \<mapsto> ''c>d''] \<and>
   sections_loop 5 ''a>segment_51>f('' 2 Map.empty = (''a>segment_51>f('', Map.empty) \<and>
   fst (splitEmmetIntoSections 5 ''a>(b+(c>d)+e)>f('') = ''a>segment_51>f(''"
proof -
  have u: "uniqueIdentifier 5 0 = ''segment_50''" by code_simp
  have d: "''a>(b+(c>d)+e)>f('' = ''a>(b+'' @ ''('' @ ''c>d'' @ '')'' @ ''+e)>f(''" by simp
  have i: "\<forall>c\<in>set ''c>d''. not_paren c" by (simp add: not_paren_def)
  have p: "\<not> has_group ''a>(b+''" by (simp add: has_group_exec not_paren_def)
  have q: "\<not> has_group ''a>segment_51>f(''" by (simp add: has_group_exec not_paren_def)
  from sections_loop_groups[of "''a>(b+(c>d)+e)>f(''" 5 0 Map.empty] d i p
  have "sections_loop 5 ''a>(b+(c>d)+e)>f('' 0 Map.empty =
     sections_loop 5 (''a>(b+'' @ uniqueIdentifier 5 0 @ ''+e)>f('') (Suc 0)
       (Map.empty(uniqueIdentifier 5 0 \<mapsto> ''c>d''))" by blast
  then have 1: "sections_loop 5 ''a>(b+(c>d)+e)>f('' 0 Map.empty =
     sections_loop 5 ''a>(b+segment_50+e)>f('' 1 [''segment_50'' \<mapsto> ''c>d'']"
    unfolding u by simp
  from sections_loop_groups[of "''a>segment_51>f(''" 5 2 Map.empty] q
  have 2: "sections_loop 5 ''a>segment_51>f('' 2 Map.empty = (''a>segment_51>f('', Map.empty)"
    by blast
  have 3: "fst (splitEmmetIntoSections 5 ''a>(b+(c>d)+e)>f('') = ''a>segment_51>f(''"
    by code_simp
  show ?thesis by (rule conjI[OF 1 conjI[OF 2 3]])
qed

section \<open>Empty pieces\<close>

lemma map_calls_raise:
  assumes "\<forall>x\<in>set ps. \<exists>y. f x = Some (Inr y)" and "f p = Some (Inl e)"
  shows "map_calls f (ps @ p # qs) = Some (Inl e)"
  using assms(1)
proof (induction ps)
  case Nil
  then show ?case using assms(2) by simp
next
  case (Cons x ps)
  then obtain y where "f x = Some (Inr y)" by auto
  moreover have "map_calls f (ps @ p # qs) = Some (Inl e)" using Cons by simp
  ultimately show ?case by simp
qed

lemma map_calls_returns:
  "map_calls f xs = Some (Inr ys) \<Longrightarrow> x \<in> set xs \<Longrightarrow> \<exists>y. f x = Some (Inr y)"
  by (induction xs arbitrary: ys) (auto split: option.splits sum.splits)

lemma createParental_with_empty_first:
  assumes "trim (hd (js_split p CHR ''>'')) = []"
  shows "createParental_with resolve p = Some (Inl InvalidEmmetString)"
proof -
  obtain c cs where sp: "js_split p CHR ''>'' = c # cs"
    using js_split_nonempty[of p "CHR ''>''"] by (cases "js_split p CHR ''>''") auto
  then have "trim c = []" using assms by simp
  then show ?thesis by (simp add: createParental_with_def sp)
qed

text \<open>
  C4, amended. Let a piece of the top-level split on \<open>+\<close> be empty after trimming, or
  more generally have an empty first component in its split on \<open>>\<close>. Then
  \<open>emmetToElements\<close> never returns elements; it raises the "Invalid Emmet string"
  error when every piece to the left of that piece expands to an element; and when a
  piece to the left of it raises, all pieces before that one expanding to elements, the
  error of that earlier piece is the one raised.
\<close>

theorem emmetToElements_empty_piece:
  assumes "splitEmmetIntoSections seed (normalize input) = (dataString, dividedSections)"
    and "map trim (js_split dataString CHR ''+'') = ps @ p # qs"
    and "trim (hd (js_split p CHR ''>'')) = []"
  shows "(\<forall>es. emmetToElements seed fuel input \<noteq> Some (Inr es)) \<and>
         ((\<forall>x\<in>set ps. \<exists>e. createParental fuel dividedSections x = Some (Inr e)) \<longrightarrow>
            emmetToElements seed fuel input = Some (Inl InvalidEmmetString)) \<and>
         (\<forall>ps1 x ps2 err.
            ps = ps1 @ x # ps2 \<and>
            (\<forall>y\<in>set ps1. \<exists>e. createParental fuel dividedSections y = Some (Inr e)) \<and>
            createParental fuel dividedSections x = Some (Inl err) \<longrightarrow>
            emmetToElements seed fuel input = Some (Inl err))"
proof -
  have e: "emmetToElements seed fuel input =
      map_calls (createParental fuel dividedSections) (ps @ p # qs)"
    by (simp add: emmetToElements_def assms(1) assms(2))
  have p: "createParental fuel dividedSections p = Some (Inl InvalidEmmetString)"
    using createParental_with_empty_first[OF assms(3)] by simp
  have 1: "\<forall>es. emmetToElements seed fuel input \<noteq> Some (Inr es)"
  proof (intro allI notI)
    fix es
    assume "emmetToElements seed fuel input = Some (Inr es)"
    then have "map_calls (createParental fuel dividedSections) (ps @ p # qs) = Some (Inr es)"
      using e by simp
    from map_calls_returns[OF this, of p] p show False by simp
  qed
  have 2: "(\<forall>x\<in>set ps. \<exists>e. createParental fuel dividedSections x = Some (Inr e)) \<longrightarrow>
            emmetToElements seed fuel input = Some (Inl InvalidEmmetString)"
    unfolding e using map_calls_raise[of ps "createParental fuel dividedSections" p InvalidEmmetString qs] p
    by blast
  have 3: "\<forall>ps1 x ps2 err.
            ps = ps1 @ x # ps2 \<and>
            (\<forall>y\<in>set ps1. \<exists>e. createParental fuel dividedSections y = Some (Inr e)) \<and>
            createParental fuel dividedSections x = Some (Inl err) \<longrightarrow>
            emmetToElements seed fuel input = Some (Inl err)"
  proof (intro allI impI, elim conjE)
    fix ps1 x ps2 err
    assume d: "ps = ps1 @ x # ps2"
      and r: "\<forall>y\<in>set ps1. \<exists>e. createParental fuel dividedSections y = Some (Inr e)"
      and x: "createParental fuel dividedSections x = Some (Inl err)"
    have "map_calls (createParental fuel dividedSections) (ps1 @ x # (ps2 @ p # qs)) =
        Some (Inl err)"
      using r x by (rule map_calls_raise)
    then show "emmetToElements seed fuel input = Some (Inl err)"
      unfolding e d by simp
  qed
  show ?thesis by (rule conjI[OF 1 conjI[OF 2 3]])
qed

theorem emmetToElements_empty_piece_witness:
  "splitEmmetIntoSections 5 (normalize ''div+'') = (''div+'', Map.empty) \<and>
   map trim (js_split ''div+'' CHR ''+'') = [''div''] @ [] # [] \<and>
   trim (hd (js_split [] CHR ''>'')) = [] \<and>
   createParental 0 Map.empty ''div'' = Some (Inr (Element ''div'' None None None [] [])) \<and>
   emmetToElements 5 0 ''div+'' = Some (Inl InvalidEmmetString) \<and>
   splitEmmetIntoSections 5 (normalize ''a[foo]+'') = (''a[foo]+'', Map.empty) \<and>
   map trim (js_split ''a[foo]+'' CHR ''+'') = [''a[foo]''] @ [] # [] \<and>
   [''a[foo]''] = [] @ ''a[foo]'' # [] \<and>
   createParental 0 Map.empty ''a[foo]'' = Some (Inl TypeError) \<and>
   emmetToElements 5 0 ''a[foo]+'' = Some (Inl TypeError)"
proof -
  have n: "normalize ''div+'' = ''div+''" by code_simp
  have 1: "splitEmmetIntoSections 5 (normalize ''div+'') = (''div+'', Map.empty)"
    unfolding n by (rule splitEmmetIntoSections_no_group) (simp add: not_paren_def)
  have 2: "map trim (js_split ''div+'' CHR ''+'') = [''div''] @ [] # []" by code_simp
  have 3: "trim (hd (js_split [] CHR ''>'')) = []" by simp
  have 4: "createParental 0 Map.empty ''div'' = Some (Inr (Element ''div'' None None None [] []))"
    by code_simp
  have "\<forall>x\<in>set [''div'']. \<exists>e. createParental 0 Map.empty x = Some (Inr e)" using 4 by simp
  with emmetToElements_empty_piece[OF 1 2 3, of 0]
  have 5: "emmetToElements 5 0 ''div+'' = Some (Inl InvalidEmmetString)" by blast
  have m: "normalize ''a[foo]+'' = ''a[foo]+''" by code_simp
  have 6: "splitEmmetIntoSections 5 (normalize ''a[foo]+'') = (''a[foo]+'', Map.empty)"
    unfolding m by (rule splitEmmetIntoSections_no_group) (simp add: not_paren_def)
  have 7: "map trim (js_split ''a[foo]+'' CHR ''+'') = [''a[foo]''] @ [] # []" by code_simp
  have 8: "[''a[foo]''] = [] @ ''a[foo]'' # []" by simp
  have 9: "createParental 0 Map.empty ''a[foo]'' = Some (Inl TypeError)" by code_simp
  have "\<forall>ps1 x ps2 err.
      [''a[foo]''] = ps1 @ x # ps2 \<and>
      (\<forall>y\<in>set ps1. \<exists>e. createParental 0 Map.empty y = Some (Inr e)) \<and>
      createParental 0 Map.empty x = Some (Inl err) \<longrightarrow>
      emmetToElements 5 0 ''a[foo]+'' = Some (Inl err)"
    using emmetToElements_empty_piece[OF 6 7 3, of 0] by (elim conjE)
  then have "[''a[foo]''] = [] @ ''a[foo]'' # [] \<and>
      (\<forall>y\<in>set []. \<exists>e. createParental 0 Map.empty y = Some (Inr e)) \<and>
      createParental 0 Map.empty ''a[foo]'' = Some (Inl TypeError) \<longrightarrow>
      emmetToElements 5 0 ''a[foo]+'' = Some (Inl TypeError)"
    by (elim allE)
  then have 10: "emmetToElements 5 0 ''a[foo]+'' = Some (Inl TypeError)"
    using 8 9 by simp
  show ?thesis
    by (rule conjI[OF 1 conjI[OF 2 conjI[OF 3 conjI[OF 4 conjI[OF 5
          conjI[OF 6 conjI[OF 7 conjI[OF 8 conjI[OF 9 10]]]]]]]]])
qed

text \<open>An empty component after the first of a chain raises nothing, it is expanded to a
  default \<open>div\<close>; and a malformed attribute to the left of an empty piece raises
  first.\<close>

theorem emmetToElements_empty_component_counterexample:
  "emmetToElements 5 0 ''div>'' =
     Some (Inr [Element ''div'' None None None [] [Element ''div'' None None None [] []]]) \<and>
   emmetToElements 5 0 ''a[foo]+'' = Some (Inl TypeError)"
  by code_simp

section \<open>Descendant chains\<close>

lemma update_at_same: "node_at path root = Some t \<Longrightarrow> update_at path t root = root"
proof (induction path arbitrary: root)
  case Nil
  then show ?case by simp
next
  case (Cons k ks)
  then show ?case by (cases root) (auto split: if_splits)
qed

lemma appendChildren_update:
  "node_at path root = Some t \<Longrightarrow>
   appendChildren path new root = update_at path (add_children t new) root"
proof (induction path arbitrary: root)
  case Nil
  then show ?case by (cases root) auto
next
  case (Cons k ks)
  then show ?case by (cases root) (auto split: if_splits)
qed

lemma node_at_update:
  "node_at path root = Some t \<Longrightarrow> node_at path (update_at path v root) = Some v"
proof (induction path arbitrary: root)
  case Nil
  then show ?case by simp
next
  case (Cons k ks)
  then show ?case by (cases root) (auto split: if_splits)
qed

lemma node_at_append:
  "node_at path root = Some t \<Longrightarrow> node_at (path @ ks) root = node_at ks t"
proof (induction path arbitrary: root)
  case Nil
  then show ?case by simp
next
  case (Cons k ks')
  then show ?case by (cases root) (auto split: if_splits)
qed

lemma update_at_append:
  "node_at path root = Some t \<Longrightarrow>
   update_at (path @ ks) v root = update_at path (update_at ks v t) root"
proof (induction path arbitrary: root)
  case Nil
  then show ?case by simp
next
  case (Cons k ks')
  then show ?case by (cases root) (auto split: if_splits)
qed

lemma update_at_twice:
  "node_at path root = Some t \<Longrightarrow>
   update_at path v (update_at path w root) = update_at path v root"
proof (induction path arbitrary: root)
  case Nil
  then show ?case by simp
next
  case (Cons k ks)
  then show ?case by (cases root) (auto split: if_splits)
qed

lemma update_last_child:
  "update_at [length (children t)] v (add_children t (r # rs)) = add_children t (v # rs)"
  by (cases t) (simp add: nth_append)

lemma node_last_child:
  "node_at [length (children t)] (add_children t (r # rs)) = Some r"
  by (cases t) (simp add: nth_append)

lemma forEach_component_chain:
  assumes "list_all2 (\<lambda>c r. resolve c = Some (Inr r) \<and> r \<noteq> []) cs levels"
    and "node_at path root = Some t"
  shows "forEach_component resolve cs root path = Some (Inr (update_at path (nest_chain t levels) root))"
  using assms
proof (induction cs arbitrary: levels root path t)
  case Nil
  then show ?case by (simp add: update_at_same)
next
  case (Cons c cs)
  from Cons.prems(1) obtain r0 rtl levels' where
    lv: "levels = (r0 # rtl) # levels'" and rc: "resolve c = Some (Inr (r0 # rtl))"
    and rest: "list_all2 (\<lambda>c r. resolve c = Some (Inr r) \<and> r \<noteq> []) cs levels'"
    by (auto simp: list_all2_Cons1 neq_Nil_conv)
  define root' where "root' = appendChildren path (r0 # rtl) root"
  define path' where "path' = path @ [length (children t)]"
  have root': "root' = update_at path (add_children t (r0 # rtl)) root"
    unfolding root'_def using Cons.prems(2) by (rule appendChildren_update)
  have at: "node_at path root' = Some (add_children t (r0 # rtl))"
    unfolding root' using Cons.prems(2) by (rule node_at_update)
  have at': "node_at path' root' = Some r0"
    unfolding path'_def node_at_append[OF at] by (rule node_last_child)
  have step: "forEach_component resolve (c # cs) root path =
      forEach_component resolve cs root' path'"
    by (simp add: rc Cons.prems(2) root'_def path'_def)
  have "forEach_component resolve cs root' path' =
      Some (Inr (update_at path' (nest_chain r0 levels') root'))"
    using rest at' by (rule Cons.IH)
  moreover have "update_at path' (nest_chain r0 levels') root' =
      update_at path (nest_chain t levels) root"
  proof -
    have "update_at path' (nest_chain r0 levels') root' =
        update_at path (update_at [length (children t)] (nest_chain r0 levels')
          (add_children t (r0 # rtl))) root'"
      unfolding path'_def using at by (rule update_at_append)
    also have "\<dots> = update_at path (add_children t (nest_chain r0 levels' # rtl)) root'"
      by (simp only: update_last_child)
    also have "\<dots> = update_at path (add_children t (nest_chain r0 levels' # rtl)) root"
      unfolding root' using Cons.prems(2) by (rule update_at_twice)
    finally show ?thesis by (simp add: lv)
  qed
  ultimately show ?case using step by simp
qed

lemma createHTMLElement_nonempty:
  assumes "createHTMLElement fuel ds component = Some (Inr es)"
  shows "es \<noteq> []"
proof (cases "ds component")
  case None
  then show ?thesis using assms by (auto split: sum.splits)
next
  case (Some t)
  show ?thesis
  proof (cases fuel)
    case 0
    then show ?thesis using assms Some by simp
  next
    case (Suc n)
    then have "createParalel n ds t = Some (Inr es)" using assms Some by simp
    then have "length es = length (js_split t CHR ''+'')" by (rule createParalel_length)
    then show ?thesis using js_split_nonempty[of t "CHR ''+''"] by auto
  qed
qed

text \<open>
  C1. When every component of a chain resolves, \<open>createParental\<close> returns the first
  element of the first component's resolution as the single root, and the elements of
  each later component's resolution are appended, in order, as children of the first
  element of the resolution before it (of the root for the second component).
\<close>

theorem createParental_chain:
  assumes "map trim (js_split s CHR ''>'') = firstComponent # components"
    and "firstComponent \<noteq> []"
    and "createHTMLElement fuel ds firstComponent = Some (Inr first_level)"
    and "list_all2 (\<lambda>c r. createHTMLElement fuel ds c = Some (Inr r)) components levels"
  shows "createParental fuel ds s = Some (Inr (nest_chain (hd first_level) levels))"
proof -
  obtain root others where fl: "first_level = root # others"
    using createHTMLElement_nonempty[OF assms(3)] by (cases first_level) auto
  have "list_all2 (\<lambda>c r. createHTMLElement fuel ds c = Some (Inr r) \<and> r \<noteq> []) components levels"
    using assms(4) createHTMLElement_nonempty
    by (auto elim!: list_all2_mono)
  then have "forEach_component (createHTMLElement fuel ds) components root [] =
      Some (Inr (update_at [] (nest_chain root levels) root))"
    by (rule forEach_component_chain) simp
  then show ?thesis
    using assms(1-3) fl by (simp add: createParental_with_def)
qed

theorem createParental_chain_witness:
  "map trim (js_split ''section>segment_50'' CHR ''>'') = ''section'' # [''segment_50''] \<and>
   createHTMLElement 1 [''segment_50'' \<mapsto> ''header>h1{H}+p{P}''] ''section'' =
     Some (Inr [Element ''section'' None None None [] []]) \<and>
   createHTMLElement 1 [''segment_50'' \<mapsto> ''header>h1{H}+p{P}''] ''segment_50'' =
     Some (Inr [Element ''header'' None None None [] [Element ''h1'' None None (Some ''H'') [] []],
                Element ''p'' None None (Some ''P'') [] []]) \<and>
   createParental 1 [''segment_50'' \<mapsto> ''header>h1{H}+p{P}''] ''section>segment_50'' =
     Some (Inr (Element ''section'' None None None []
       [Element ''header'' None None None [] [Element ''h1'' None None (Some ''H'') [] []],
        Element ''p'' None None (Some ''P'') [] []])) \<and>
   emmetToElements 5 1 ''section>(header>h1{H}+p{P})'' =
     Some (Inr [Element ''section'' None None None []
       [Element ''header'' None None None [] [Element ''h1'' None None (Some ''H'') [] []],
        Element ''p'' None None (Some ''P'') [] []]])"
proof -
  let ?ds = "[''segment_50'' \<mapsto> ''header>h1{H}+p{P}'']"
  let ?level = "[Element ''header'' None None None [] [Element ''h1'' None None (Some ''H'') [] []],
                Element ''p'' None None (Some ''P'') [] []]"
  have 1: "map trim (js_split ''section>segment_50'' CHR ''>'') = ''section'' # [''segment_50'']"
    by code_simp
  have 2: "''section'' \<noteq> []" by simp
  have 3: "createHTMLElement 1 ?ds ''section'' = Some (Inr [Element ''section'' None None None [] []])"
    by code_simp
  have 4: "createHTMLElement 1 ?ds ''segment_50'' = Some (Inr ?level)"
    by code_simp
  have 5: "list_all2 (\<lambda>c r. createHTMLElement 1 ?ds c = Some (Inr r)) [''segment_50''] [?level]"
    using 4 by simp
  have 6: "createParental 1 ?ds ''section>segment_50'' =
     Some (Inr (Element ''section'' None None None []
       [Element ''header'' None None None [] [Element ''h1'' None None (Some ''H'') [] []],
        Element ''p'' None None (Some ''P'') [] []]))"
    using createParental_chain[OF 1 2 3 5] by simp
  have 7: "emmetToElements 5 1 ''section>(header>h1{H}+p{P})'' =
     Some (Inr [Element ''section'' None None None []
       [Element ''header'' None None None [] [Element ''h1'' None None (Some ''H'') [] []],
        Element ''p'' None None (Some ''P'') [] []]])"
    by code_simp
  show ?thesis by (rule conjI[OF 1 conjI[OF 3 conjI[OF 4 conjI[OF 6 7]]]])
qed

section \<open>The depth bound\<close>

text \<open>A call that returns or raises within a depth bound does the same within every
  larger bound.\<close>

lemma map_calls_mono:
  assumes "\<And>x r. f x = Some r \<Longrightarrow> g x = Some r"
  shows "map_calls f xs = Some r \<Longrightarrow> map_calls g xs = Some r"
proof (induction xs arbitrary: r)
  case Nil
  then show ?case by simp
next
  case (Cons x xs)
  from Cons.prems obtain v where fx: "f x = Some v" by (auto split: option.splits)
  then have gx: "g x = Some v" by (rule assms)
  show ?case
  proof (cases v)
    case (Inl e)
    then show ?thesis using Cons.prems fx gx by simp
  next
    case (Inr y)
    then obtain w where w: "map_calls f xs = Some w"
      using Cons.prems fx by (auto split: option.splits)
    then have "map_calls g xs = Some w" by (rule Cons.IH)
    then show ?thesis using Cons.prems fx gx Inr w by simp
  qed
qed

lemma forEach_component_mono:
  assumes "\<And>x r. f x = Some r \<Longrightarrow> g x = Some r"
  shows "forEach_component f cs root path = Some r \<Longrightarrow>
         forEach_component g cs root path = Some r"
proof (induction cs arbitrary: root path)
  case Nil
  then show ?case by simp
next
  case (Cons c cs)
  from Cons.prems obtain v where fc: "f c = Some v" by (auto split: option.splits)
  then have gc: "g c = Some v" by (rule assms)
  show ?case
  proof (cases v)
    case (Inl e)
    then show ?thesis using Cons.prems fc gc by simp
  next
    case (Inr childs)
    show ?thesis
    proof (cases "childs = [] \<or> node_at path root = None")
      case True
      then show ?thesis using Cons.prems fc gc Inr by (auto split: list.splits option.splits)
    next
      case False
      then obtain k ks node where "childs = k # ks" "node_at path root = Some node"
        by (cases childs) auto
      then show ?thesis using Cons.prems fc gc Inr Cons.IH by simp
    qed
  qed
qed

lemma createParental_with_mono:
  assumes "\<And>x r. f x = Some r \<Longrightarrow> g x = Some r"
    and "createParental_with f s = Some r"
  shows "createParental_with g s = Some r"
proof -
  obtain c cs where sp: "map trim (js_split s CHR ''>'') = c # cs"
    using js_split_nonempty[of s "CHR ''>''"] by (cases "map trim (js_split s CHR ''>'')") auto
  show ?thesis
  proof (cases "c = []")
    case True
    then show ?thesis using assms(2) by (simp add: createParental_with_def sp)
  next
    case False
    then obtain v where fc: "f c = Some v"
      using assms(2) by (auto simp: createParental_with_def sp split: option.splits)
    then have gc: "g c = Some v" by (rule assms(1))
    show ?thesis
    proof (cases v)
      case (Inl e)
      then show ?thesis using assms(2) False fc gc by (simp add: createParental_with_def sp)
    next
      case (Inr es)
      show ?thesis
      proof (cases es)
        case Nil
        then show ?thesis using assms(2) False fc gc Inr by (simp add: createParental_with_def sp)
      next
        case (Cons root others)
        then have "forEach_component f cs root [] = Some r"
          using assms(2) False fc Inr by (simp add: createParental_with_def sp)
        then have "forEach_component g cs root [] = Some r"
          using assms(1) forEach_component_mono[of f g] by blast
        then show ?thesis using False gc Inr Cons by (simp add: createParental_with_def sp)
      qed
    qed
  qed
qed

lemma createParalel_Suc:
  "createParalel n ds s = Some r \<Longrightarrow> createParalel (Suc n) ds s = Some r"
proof (induction n arbitrary: s r)
  case 0
  have h: "createHTMLElement 0 ds c = Some v \<Longrightarrow> createHTMLElement (Suc 0) ds c = Some v" for c v
    by (cases "ds c") simp_all
  have "createParental 0 ds x = Some v \<Longrightarrow> createParental (Suc 0) ds x = Some v" for x v
    using createParental_with_mono[of "createHTMLElement 0 ds" "createHTMLElement (Suc 0) ds" x v] h
    by simp
  then show ?case using 0 map_calls_mono[of "createParental 0 ds" "createParental (Suc 0) ds"]
    by simp
next
  case (Suc n)
  have h: "createHTMLElement (Suc n) ds c = Some v \<Longrightarrow>
           createHTMLElement (Suc (Suc n)) ds c = Some v" for c v
    using Suc.IH by (cases "ds c") simp_all
  have "createParental (Suc n) ds x = Some v \<Longrightarrow> createParental (Suc (Suc n)) ds x = Some v"
    for x v
    using createParental_with_mono[of "createHTMLElement (Suc n) ds"
        "createHTMLElement (Suc (Suc n)) ds" x v] h
    by simp
  then show ?case
    using Suc.prems map_calls_mono[of "createParental (Suc n) ds" "createParental (Suc (Suc n)) ds"]
    by simp
qed

lemma emmetToElements_more_fuel:
  "emmetToElements seed n s = Some r \<Longrightarrow> emmetToElements seed (n + k) s = Some r"
proof (induction k)
  case 0
  then show ?case by simp
next
  case (Suc k)
  then have "emmetToElements seed (n + k) s = Some r" by simp
  then show ?case
    using createParalel_Suc by (auto simp: emmetToElements_def split: prod.splits)
qed

section \<open>The random segment and the result\<close>

text \<open>A group inside a text block: the placeholder becomes the text of the element, and the
  text changes with the random integer.\<close>

theorem emmetToElements_segment_counterexample:
  "emmetToElements 5 0 ''p{(x)}'' =
     Some (Inr [Element ''p'' None None (Some ''segment_50'') [] []]) \<and>
   emmetToElements 6 0 ''p{(x)}'' =
     Some (Inr [Element ''p'' None None (Some ''segment_60'') [] []])"
  by code_simp

subsection \<open>Strings with placeholders as templates\<close>

lemma inst_simps [simp]:
  "inst seed [] = []"
  "inst seed (Ch c # t) = c # inst seed t"
  "inst seed (Hole i # t) = uniqueIdentifier seed i @ inst seed t"
  "inst seed (t @ u) = inst seed t @ inst seed u"
  by (simp_all add: inst_def)

lemma inst_map_Ch [simp]: "inst seed (map Ch s) = s"
  by (induction s) simp_all

lemma hole_free_simps [simp]:
  "hole_free []"
  "hole_free (Ch c # t) = hole_free t"
  "\<not> hole_free (Hole i # t)"
  "hole_free (t @ u) = (hole_free t \<and> hole_free u)"
  by (simp_all add: hole_free_def)

lemma hole_free_inst: "hole_free t \<Longrightarrow> inst a t = inst b t"
proof (induction t)
  case Nil
  then show ?case by simp
next
  case (Cons x t)
  then show ?case by (cases x) simp_all
qed

lemma hole_free_map_Ch: "hole_free t \<Longrightarrow> map Ch (inst a t) = t"
proof (induction t)
  case Nil
  then show ?case by simp
next
  case (Cons x t)
  then show ?case by (cases x) simp_all
qed

lemma uniqueIdentifier_shape:
  "uniqueIdentifier seed i = ''segment_'' @ show_nat seed @ show_nat i"
  by (simp add: uniqueIdentifier_def segment_def)

lemma show_nat_no_s: "CHR ''s'' \<notin> set (show_nat n)"
  using show_nat_digits[of n] by auto

lemma uniqueIdentifier_Cons:
  "\<exists>w. uniqueIdentifier seed i = CHR ''s'' # w \<and> CHR ''s'' \<notin> set w"
  using show_nat_no_s[of seed] show_nat_no_s[of i] by (simp add: uniqueIdentifier_shape)

lemma first_hole:
  "\<not> hole_free t \<Longrightarrow> \<exists>l i r. t = l @ Hole i # r \<and> hole_free l"
proof (induction t)
  case Nil
  then show ?case by simp
next
  case (Cons x t)
  show ?case
  proof (cases x)
    case (Ch c)
    then have "\<not> hole_free t" using Cons.prems by simp
    from Cons.IH[OF this] obtain l i r where "t = l @ Hole i # r" "hole_free l" by blast
    then have "x # t = (Ch c # l) @ Hole i # r \<and> hole_free (Ch c # l)" using Ch by simp
    then show ?thesis by blast
  next
    case (Hole i)
    then have "x # t = [] @ Hole i # t \<and> hole_free []" by simp
    then show ?thesis by blast
  qed
qed

lemma inst_has_s: "\<not> hole_free t \<Longrightarrow> CHR ''s'' \<in> set (inst seed t)"
proof -
  assume "\<not> hole_free t"
  from first_hole[OF this] obtain l i r where t: "t = l @ Hole i # r" by blast
  obtain w where "uniqueIdentifier seed i = CHR ''s'' # w"
    using uniqueIdentifier_Cons[of seed i] by blast
  then show ?thesis unfolding t by simp
qed

lemma inst_has_segment: "\<not> hole_free t \<Longrightarrow> sublist ''segment_'' (inst seed t)"
proof -
  assume "\<not> hole_free t"
  from first_hole[OF this] obtain l i r where t: "t = l @ Hole i # r" by blast
  have "inst seed t = inst seed l @ ''segment_'' @ (show_nat seed @ show_nat i @ inst seed r)"
    unfolding t by (simp add: uniqueIdentifier_shape)
  then show ?thesis unfolding sublist_def by blast
qed

text \<open>A template whose instance is a placeholder is that placeholder under every
  segment.\<close>

lemma placeholder_template:
  assumes "\<not> hole_free q" and "inst a q = uniqueIdentifier a j"
  shows "inst b q = uniqueIdentifier b j"
proof -
  from first_hole[OF assms(1)] obtain l i r where q: "q = l @ Hole i # r" and l: "hole_free l"
    by blast
  define T where "T = ''egment_'' @ show_nat a @ show_nat j"
  have sT: "CHR ''s'' \<notin> set T"
    using show_nat_no_s[of a] show_nat_no_s[of j] by (simp add: T_def)
  have eq: "inst a l @ CHR ''s'' # (''egment_'' @ show_nat a @ show_nat i @ inst a r) = CHR ''s'' # T"
    using assms(2) unfolding q by (simp add: uniqueIdentifier_shape T_def)
  have l_empty: "inst a l = []"
  proof (cases "inst a l")
    case Nil
    then show ?thesis .
  next
    case (Cons c w)
    then have "w @ CHR ''s'' # (''egment_'' @ show_nat a @ show_nat i @ inst a r) = T"
      using eq by simp
    then have "CHR ''s'' \<in> set T" by (metis in_set_conv_decomp)
    with sT show ?thesis by simp
  qed
  then have "l = []" using hole_free_map_Ch[OF l, of a] by simp
  have d: "show_nat i @ inst a r = show_nat j" using eq l_empty by (simp add: T_def)
  have "hole_free r"
  proof (rule ccontr)
    assume "\<not> hole_free r"
    then have "CHR ''s'' \<in> set (inst a r)" by (rule inst_has_s)
    then have "CHR ''s'' \<in> set (show_nat j)" using d by (metis Un_iff set_append)
    then show False using show_nat_no_s by simp
  qed
  then have "inst b r = inst a r" by (rule hole_free_inst)
  then show ?thesis
    unfolding q \<open>l = []\<close> using d by (simp add: uniqueIdentifier_shape)
qed

lemma sublist_around:
  assumes "sublist xs (p @ h # q)" and "h \<notin> set xs"
  shows "sublist xs p \<or> sublist xs q"
proof -
  have pre: "prefix ys (h # q) \<Longrightarrow> h \<notin> set ys \<Longrightarrow> ys = []" for ys
    by (cases ys) (auto simp: prefix_def)
  from assms(1) consider "sublist xs p" | "sublist xs (h # q)"
    | xs1 xs2 where "xs = xs1 @ xs2" "suffix xs1 p" "prefix xs2 (h # q)"
    unfolding sublist_append by blast
  then show ?thesis
  proof cases
    case 1
    then show ?thesis by simp
  next
    case 2
    then have "prefix xs (h # q) \<or> sublist xs q" by (simp add: sublist_Cons_right)
    then show ?thesis using pre[of xs] assms(2) by auto
  next
    case 3
    then have "xs2 = []" using pre[of xs2] assms(2) by simp
    then have "suffix xs p" using 3 by simp
    then show ?thesis by auto
  qed
qed

lemma clean_step:
  assumes "clean (tp @ Ch CHR ''('' # tg @ Ch CHR '')'' # tq)"
  shows "clean (tp @ Hole n # tq)" and "clean tg"
proof -
  let ?X = "map Ch ''segment_''"
  have h: "Hole n \<notin> set ?X" by auto
  have t: "\<not> sublist ?X (tp @ Ch CHR ''('' # tg @ Ch CHR '')'' # tq)"
    using assms by (simp add: clean_def)
  have "\<not> sublist ?X tp" using t by (auto simp: sublist_append)
  moreover have "\<not> sublist ?X tq"
  proof
    assume "sublist ?X tq"
    then have "sublist ?X ((tp @ Ch CHR ''('' # tg @ [Ch CHR '')'']) @ tq)"
      unfolding sublist_append[of _ "tp @ Ch CHR ''('' # tg @ [Ch CHR '')'']"] by blast
    with t show False by simp
  qed
  ultimately show "clean (tp @ Hole n # tq)"
    unfolding clean_def using sublist_around[OF _ h, of tp tq] by blast
  show "clean tg"
  proof (unfold clean_def, rule notI)
    assume "sublist ?X tg"
    then have "sublist ?X ((tp @ [Ch CHR ''('']) @ tg @ (Ch CHR '')'' # tq))"
      by (metis sublist_appendI sublist_order.order_trans)
    with t show False by simp
  qed
qed

lemma inst_lift:
  assumes "inst seed t = a @ ch # b" and "ch \<notin> set ''segment_0123456789''"
  shows "\<exists>ta tb. t = ta @ Ch ch # tb \<and> inst seed ta = a \<and> inst seed tb = b"
  using assms(1)
proof (induction t arbitrary: a)
  case Nil
  then show ?case by simp
next
  case (Cons x t)
  show ?case
  proof (cases x)
    case (Ch c)
    show ?thesis
    proof (cases a)
      case Nil
      then have "x # t = [] @ Ch ch # t \<and> inst seed [] = a \<and> inst seed t = b"
        using Cons.prems Ch by simp
      then show ?thesis by blast
    next
      case (Cons y a')
      then have "inst seed t = a' @ ch # b" and y: "y = c" using Cons.prems Ch by simp_all
      from Cons.IH[OF this(1)] obtain ta tb where
        "t = ta @ Ch ch # tb" "inst seed ta = a'" "inst seed tb = b" by blast
      then have "x # t = (Ch c # ta) @ Ch ch # tb \<and> inst seed (Ch c # ta) = a \<and> inst seed tb = b"
        using Ch Cons y by simp
      then show ?thesis by blast
    qed
  next
    case (Hole i)
    let ?ph = "uniqueIdentifier seed i"
    have notin: "ch \<notin> set ?ph" using uniqueIdentifier_chars[of seed i] assms(2) by blast
    have "?ph @ inst seed t = a @ ch # b" using Cons.prems Hole by simp
    then obtain us where "?ph = a @ us \<and> us @ inst seed t = ch # b \<or>
        ?ph @ us = a \<and> inst seed t = us @ ch # b"
      unfolding append_eq_append_conv2 by blast
    then have "\<exists>us. ?ph @ us = a \<and> inst seed t = us @ ch # b"
    proof
      assume c1: "?ph = a @ us \<and> us @ inst seed t = ch # b"
      show ?thesis
      proof (cases us)
        case Nil
        then show ?thesis using c1 by simp
      next
        case (Cons u us')
        then have "u = ch" using c1 by simp
        then have "ch \<in> set ?ph" using c1 Cons by (metis in_set_conv_decomp)
        with notin show ?thesis by simp
      qed
    next
      assume "?ph @ us = a \<and> inst seed t = us @ ch # b"
      then show ?thesis by blast
    qed
    then obtain us where a: "?ph @ us = a" and r: "inst seed t = us @ ch # b" by blast
    from Cons.IH[OF r] obtain ta tb where
      "t = ta @ Ch ch # tb" "inst seed ta = us" "inst seed tb = b" by blast
    then have "x # t = (Hole i # ta) @ Ch ch # tb \<and> inst seed (Hole i # ta) = a \<and> inst seed tb = b"
      using Hole a by simp
    then show ?thesis by blast
  qed
qed

lemma inst_not_paren:
  "\<forall>x\<in>set (inst a t). not_paren x \<Longrightarrow> \<forall>x\<in>set (inst b t). not_paren x"
proof (induction t)
  case Nil
  then show ?case by simp
next
  case (Cons x t)
  then show ?case using uniqueIdentifier_not_paren[of b] by (cases x) auto
qed

lemma group_template:
  assumes "regPattern_exec (inst a t) = Some g"
  shows "\<exists>tp tg tq. t = tp @ Ch CHR ''('' # tg @ Ch CHR '')'' # tq \<and>
           regPattern_exec (inst a tp) = None \<and> inst a tg = g \<and>
           (\<forall>x\<in>set g. not_paren x)"
proof -
  from regPattern_exec_Some[OF assms] obtain pre post where
    s: "inst a t = pre @ ''('' @ g @ '')'' @ post" and n: "regPattern_exec pre = None"
    and g: "\<forall>x\<in>set g. not_paren x" by blast
  have "inst a t = pre @ CHR ''('' # (g @ '')'' @ post)" using s by simp
  from inst_lift[OF this] obtain tp t1 where
    t: "t = tp @ Ch CHR ''('' # t1" and p: "inst a tp = pre" and t1: "inst a t1 = g @ '')'' @ post"
    by auto
  have "inst a t1 = g @ CHR '')'' # post" using t1 by simp
  from inst_lift[OF this] obtain tg tq where
    "t1 = tg @ Ch CHR '')'' # tq" "inst a tg = g" by auto
  then show ?thesis using t p n g by blast
qed

lemma has_group_transfer:
  assumes "regPattern_exec (inst a t) \<noteq> None"
  shows "regPattern_exec (inst b t) \<noteq> None"
proof -
  from assms obtain g where "regPattern_exec (inst a t) = Some g" by blast
  from group_template[OF this] obtain tp tg tq where
    t: "t = tp @ Ch CHR ''('' # tg @ Ch CHR '')'' # tq" and "inst a tg = g"
    and "\<forall>x\<in>set g. not_paren x" by blast
  then have "\<forall>x\<in>set (inst b tg). not_paren x" using inst_not_paren[of a tg b] by simp
  moreover have "inst b t = inst b tp @ ''('' @ inst b tg @ '')'' @ inst b tq"
    unfolding t by simp
  ultimately have "has_group (inst b t)" unfolding has_group_def by blast
  then show ?thesis by (simp add: has_group_exec)
qed

lemma no_group_transfer:
  "regPattern_exec (inst a t) = None \<Longrightarrow> regPattern_exec (inst b t) = None"
  using has_group_transfer[of b t a] by blast

lemma count_open_less:
  "count_list (tp @ Hole n # tq) (Ch CHR ''('') <
   count_list (tp @ Ch CHR ''('' # tg @ Ch CHR '')'' # tq) (Ch CHR ''('')"
  by simp

lemma sections_loop_lockstep:
  assumes "clean t" and "\<forall>g\<in>set sg. clean g"
  shows "\<exists>t' sg'. clean t' \<and> (\<forall>g\<in>set sg'. clean g) \<and>
           (\<forall>c. sections_loop c (inst c t) (length sg) (mk c sg) = (inst c t', mk c sg'))"
  using assms
proof (induction "count_list t (Ch CHR ''('')" arbitrary: t sg rule: less_induct)
  case less
  show ?case
  proof (cases "regPattern_exec (inst 0 t)")
    case None
    then have "regPattern_exec (inst c t) = None" for c by (rule no_group_transfer)
    then have "\<forall>c. sections_loop c (inst c t) (length sg) (mk c sg) = (inst c t, mk c sg)"
      by (simp add: sections_loop_stop)
    then show ?thesis using less.prems by blast
  next
    case (Some g)
    from group_template[OF Some] obtain tp tg tq where
      t: "t = tp @ Ch CHR ''('' # tg @ Ch CHR '')'' # tq"
      and n0: "regPattern_exec (inst 0 tp) = None" and g0: "inst 0 tg = g"
      and np0: "\<forall>x\<in>set g. not_paren x" by blast
    define t2 where "t2 = tp @ Hole (length sg) # tq"
    have step: "sections_loop c (inst c t) (length sg) (mk c sg) =
        sections_loop c (inst c t2) (length (tg # sg)) (mk c (tg # sg))" for c
    proof -
      have n: "regPattern_exec (inst c tp) = None" using n0 by (rule no_group_transfer)
      have np: "\<forall>x\<in>set (inst c tg). not_paren x"
        using np0 g0 inst_not_paren[of 0 tg c] by simp
      have it: "inst c t = inst c tp @ ''('' @ inst c tg @ '')'' @ inst c tq"
        unfolding t by simp
      from first_group[OF n np, of "inst c tq" "uniqueIdentifier c (length sg)"]
      have e: "regPattern_exec (inst c t) = Some (inst c tg)"
        and r: "replace_first (inst c t) (''('' @ inst c tg @ '')'') (uniqueIdentifier c (length sg)) =
                inst c tp @ uniqueIdentifier c (length sg) @ inst c tq"
        unfolding it by simp_all
      show ?thesis
        unfolding sections_loop_step[OF e] r by (simp add: t2_def)
    qed
    have c1: "count_list t2 (Ch CHR ''('') < count_list t (Ch CHR ''('')"
      unfolding t t2_def by (rule count_open_less)
    have c2: "clean t2"
      using clean_step(1)[of tp tg tq "length sg"] less.prems(1) unfolding t t2_def by simp
    have c3: "clean tg"
      using clean_step(2)[of tp tg tq] less.prems(1) unfolding t by simp
    have c4: "\<forall>g\<in>set (tg # sg). clean g" using c3 less.prems(2) by simp
    from less.hyps[OF c1 c2 c4] obtain t' sg' where "clean t'" "\<forall>g\<in>set sg'. clean g"
      and "\<forall>c. sections_loop c (inst c t2) (length (tg # sg)) (mk c (tg # sg)) = (inst c t', mk c sg')"
      by blast
    then show ?thesis using step by auto
  qed
qed

lemma mk_dom: "dom (mk seed sg) = (\<lambda>j. uniqueIdentifier seed j) ` {..<length sg}"
proof (induction sg)
  case Nil
  then show ?case by simp
next
  case (Cons g sg)
  have "{..<Suc (length sg)} = insert (length sg) {..<length sg}" by auto
  moreover have "dom (mk seed (g # sg)) =
      insert (uniqueIdentifier seed (length sg)) (dom (mk seed sg))"
    by (simp only: mk.simps dom_fun_upd option.simps if_False)
  ultimately show ?case using Cons by (simp del: mk.simps)
qed

lemma mk_lookup:
  "j < length sg \<Longrightarrow> mk seed sg (uniqueIdentifier seed j) = Some (inst seed (rev sg ! j))"
proof (induction sg)
  case Nil
  then show ?case by simp
next
  case (Cons g sg)
  show ?case
  proof (cases "j = length sg")
    case True
    then show ?thesis by (simp add: nth_append)
  next
    case False
    then have j: "j < length sg" using Cons.prems by simp
    have "uniqueIdentifier seed j \<noteq> uniqueIdentifier seed (length sg)"
      using False uniqueIdentifier_inj by blast
    then show ?thesis using Cons.IH[OF j] j by (simp add: nth_append)
  qed
qed

lemma mk_ran: "j < length sg \<Longrightarrow> inst seed (rev sg ! j) \<in> ran (mk seed sg)"
  using mk_lookup[of j sg seed] by (auto simp: ran_def)

lemma t_split_nonempty: "t_split t sep \<noteq> []"
  by (induction t) (auto split: list.splits)

lemma js_split_prepend:
  "sep \<notin> set u \<Longrightarrow>
   js_split (u @ s) sep = (u @ hd (js_split s sep)) # tl (js_split s sep)"
proof (induction u)
  case Nil
  then show ?case using js_split_nonempty[of s sep] by simp
next
  case (Cons c u)
  then show ?case by auto
qed

lemma js_split_inst:
  assumes "sep \<notin> set ''segment_0123456789''"
  shows "js_split (inst seed t) sep = map (inst seed) (t_split t sep)"
proof (induction t)
  case Nil
  then show ?case by simp
next
  case (Cons x t)
  obtain p ps where sp: "t_split t sep = p # ps"
    using t_split_nonempty[of t sep] by (cases "t_split t sep") auto
  show ?case
  proof (cases x)
    case (Ch c)
    then show ?thesis using Cons sp by simp
  next
    case (Hole i)
    have "sep \<notin> set (uniqueIdentifier seed i)"
      using uniqueIdentifier_chars[of seed i] assms by blast
    from js_split_prepend[OF this, of "inst seed t"]
    show ?thesis using Cons sp Hole by simp
  qed
qed

lemma t_split_sublist: "p \<in> set (t_split t sep) \<Longrightarrow> sublist p t"
proof (induction t arbitrary: p)
  case Nil
  then show ?case by simp
next
  case (Cons x t)
  obtain q qs where sp: "t_split t sep = q # qs"
    using t_split_nonempty[of t sep] by (cases "t_split t sep") auto
  have q: "prefix q t"
  proof -
    have "prefix (hd (t_split u sep)) u" for u
    proof (induction u)
      case Nil
      then show ?case by simp
    next
      case (Cons y u)
      then show ?case using t_split_nonempty[of u sep]
        by (cases "t_split u sep") auto
    qed
    from this[of t] show ?thesis using sp by simp
  qed
  show ?case
  proof (cases "x = Ch sep")
    case True
    then have "p = [] \<or> p \<in> set (t_split t sep)" using Cons.prems by auto
    then show ?thesis using Cons.IH by (auto simp: sublist_Cons_right)
  next
    case False
    then have "p = x # q \<or> p \<in> set qs" using Cons.prems sp by auto
    then show ?thesis
    proof
      assume "p = x # q"
      then have "prefix p (x # t)" using q by simp
      then show ?thesis by (rule prefix_imp_sublist)
    next
      assume "p \<in> set qs"
      then have "sublist p t" using Cons.IH sp by simp
      then show ?thesis by (simp add: sublist_Cons_right)
    qed
  qed
qed

lemma uniqueIdentifier_no_space: "\<forall>x\<in>set (uniqueIdentifier seed i). \<not> is_space x"
  using uniqueIdentifier_chars[of seed i] by (auto simp: is_space_def)

lemma uniqueIdentifier_nonempty: "uniqueIdentifier seed i \<noteq> []"
  by (simp add: uniqueIdentifier_shape)

lemma dropWhile_keeps:
  "u \<noteq> [] \<Longrightarrow> \<forall>x\<in>set u. \<not> P x \<Longrightarrow> dropWhile P (u @ s) = u @ s"
  by (cases u) simp_all

lemma dropWhile_inst:
  "dropWhile is_space (inst seed t) = inst seed (dropWhile tspace t)"
proof (induction t)
  case Nil
  then show ?case by simp
next
  case (Cons x t)
  show ?case
  proof (cases x)
    case (Ch c)
    then show ?thesis using Cons by simp
  next
    case (Hole i)
    then show ?thesis
      using dropWhile_keeps[OF uniqueIdentifier_nonempty uniqueIdentifier_no_space, of seed i]
      by simp
  qed
qed

lemma dropWhile_rev_inst:
  "dropWhile is_space (rev (inst seed t)) = rev (inst seed (rev (dropWhile tspace (rev t))))"
proof (induction t rule: rev_induct)
  case Nil
  then show ?case by simp
next
  case (snoc x t)
  show ?case
  proof (cases x)
    case (Ch c)
    then show ?thesis using snoc by simp
  next
    case (Hole i)
    have "rev (uniqueIdentifier seed i) \<noteq> []" using uniqueIdentifier_nonempty by simp
    moreover have "\<forall>x\<in>set (rev (uniqueIdentifier seed i)). \<not> is_space x"
      using uniqueIdentifier_no_space by simp
    ultimately have "dropWhile is_space (rev (uniqueIdentifier seed i) @ rev (inst seed t)) =
        rev (uniqueIdentifier seed i) @ rev (inst seed t)"
      by (rule dropWhile_keeps)
    then show ?thesis using Hole by simp
  qed
qed

lemma trim_inst: "trim (inst seed t) = inst seed (t_trim t)"
  unfolding trim_def t_trim_def dropWhile_inst dropWhile_rev_inst by simp

lemma t_trim_sublist: "sublist (t_trim t) t"
proof -
  have "sublist (dropWhile tspace (rev (dropWhile tspace t))) (rev (dropWhile tspace t))"
    by (rule sublist_dropWhile)
  then have "sublist (t_trim t) (dropWhile tspace t)"
    unfolding t_trim_def by (simp add: sublist_rev_left)
  moreover have "sublist (dropWhile tspace t) t" by (rule sublist_dropWhile)
  ultimately show ?thesis by (rule sublist_order.order_trans)
qed

lemma clean_sublist: "clean t \<Longrightarrow> sublist q t \<Longrightarrow> clean q"
  unfolding clean_def by (meson sublist_order.order_trans)

lemma map_calls_rel:
  "list_all2 (\<lambda>x y. f x = g y) xs ys \<Longrightarrow> map_calls f xs = map_calls g ys"
  by (induction xs ys rule: list_all2_induct) (simp_all split: option.splits sum.splits)

lemma forEach_component_rel:
  "list_all2 (\<lambda>x y. f x = g y) xs ys \<Longrightarrow>
   forEach_component f xs root path = forEach_component g ys root path"
proof (induction xs ys arbitrary: root path rule: list_all2_induct)
  case Nil
  then show ?case by simp
next
  case (Cons x xs y ys)
  then show ?case by (simp split: option.splits sum.splits list.splits)
qed

lemma createParental_with_rel:
  assumes "list_all2 (\<lambda>x y. (x = [] \<longleftrightarrow> y = []) \<and> f x = g y)
             (map trim (js_split s CHR ''>'')) (map trim (js_split s' CHR ''>''))"
  shows "createParental_with f s = createParental_with g s'"
proof -
  obtain x xs where xs: "map trim (js_split s CHR ''>'') = x # xs"
    using js_split_nonempty[of s "CHR ''>''"] by (cases "map trim (js_split s CHR ''>'')") auto
  with assms obtain y ys where ys: "map trim (js_split s' CHR ''>'') = y # ys"
    and e: "x = [] \<longleftrightarrow> y = []" and fg: "f x = g y"
    and rest: "list_all2 (\<lambda>x y. (x = [] \<longleftrightarrow> y = []) \<and> f x = g y) xs ys"
    by (auto simp: list_all2_Cons1)
  have "list_all2 (\<lambda>x y. f x = g y) xs ys"
    using rest by (rule list_all2_mono) simp
  then have "forEach_component f xs root path = forEach_component g ys root path" for root path
    by (rule forEach_component_rel)
  then show ?thesis
    unfolding createParental_with_def xs ys using e fg
    by (simp split: option.splits sum.splits list.splits)
qed

lemma inst_empty: "inst seed q = [] \<longleftrightarrow> q = []"
proof (cases q)
  case Nil
  then show ?thesis by simp
next
  case (Cons x t)
  then show ?thesis using uniqueIdentifier_nonempty[of seed] by (cases x) simp_all
qed

lemma clean_literal:
  assumes "clean q" and "hole_free q"
  shows "\<not> sublist ''segment_'' (inst seed q)"
proof
  assume "sublist ''segment_'' (inst seed q)"
  then have "sublist (map Ch ''segment_'') (map Ch (inst seed q))" by (rule map_mono_sublist)
  then show False using assms hole_free_map_Ch[OF assms(2), of seed] by (simp add: clean_def)
qed

lemma key_has_segment: "k \<in> dom (mk seed sg) \<Longrightarrow> sublist ''segment_'' k"
proof -
  assume "k \<in> dom (mk seed sg)"
  then obtain j where "k = uniqueIdentifier seed j" unfolding mk_dom by blast
  then have "k = ''segment_'' @ (show_nat seed @ show_nat j)" by (simp add: uniqueIdentifier_shape)
  then show ?thesis by (metis sublist_append_rightI)
qed

lemma component_lockstep:
  assumes "clean q"
    and "sublist ''segment_'' (inst a q) \<longrightarrow> inst a q \<in> dom (mk a sg)"
    and "\<And>j n. fuel = Suc n \<Longrightarrow> j < length sg \<Longrightarrow>
           createParalel n (mk b sg) (inst b (rev sg ! j)) =
           createParalel n (mk a sg) (inst a (rev sg ! j))"
  shows "createHTMLElement fuel (mk b sg) (inst b q) = createHTMLElement fuel (mk a sg) (inst a q)"
proof (cases "hole_free q")
  case True
  then have same: "inst b q = inst a q" by (rule hole_free_inst)
  have "\<not> sublist ''segment_'' (inst a q)" using assms(1) True by (rule clean_literal)
  then have "inst a q \<notin> dom (mk a sg)" "inst a q \<notin> dom (mk b sg)"
    using key_has_segment by blast+
  then have "mk a sg (inst a q) = None" "mk b sg (inst a q) = None" by blast+
  then show ?thesis unfolding same by simp
next
  case False
  then have "sublist ''segment_'' (inst a q)" by (rule inst_has_segment)
  then have "inst a q \<in> dom (mk a sg)" using assms(2) by simp
  then obtain j where j: "j < length sg" and ka: "inst a q = uniqueIdentifier a j"
    unfolding mk_dom by blast
  have kb: "inst b q = uniqueIdentifier b j" using False ka by (rule placeholder_template)
  have la: "mk a sg (uniqueIdentifier a j) = Some (inst a (rev sg ! j))"
    and lb: "mk b sg (uniqueIdentifier b j) = Some (inst b (rev sg ! j))"
    using j by (rule mk_lookup)+
  show ?thesis
  proof (cases fuel)
    case 0
    then show ?thesis unfolding ka kb using la lb by simp
  next
    case (Suc n)
    then show ?thesis unfolding ka kb using la lb assms(3)[OF Suc j] by simp
  qed
qed

lemma piece_lockstep:
  assumes "clean p"
    and "\<forall>c\<in>set (map trim (js_split (inst a p) CHR ''>'')).
           sublist ''segment_'' c \<longrightarrow> c \<in> dom (mk a sg)"
    and "\<And>j n. fuel = Suc n \<Longrightarrow> j < length sg \<Longrightarrow>
           createParalel n (mk b sg) (inst b (rev sg ! j)) =
           createParalel n (mk a sg) (inst a (rev sg ! j))"
  shows "createParental fuel (mk b sg) (inst b p) = createParental fuel (mk a sg) (inst a p)"
proof -
  define comps where "comps = map t_trim (t_split p CHR ''>'')"
  have sp: "map trim (js_split (inst c p) CHR ''>'') = map (inst c) comps" for c
    unfolding comps_def by (simp add: js_split_inst trim_inst)
  have each: "(inst b q = [] \<longleftrightarrow> inst a q = []) \<and>
      createHTMLElement fuel (mk b sg) (inst b q) = createHTMLElement fuel (mk a sg) (inst a q)"
    if q: "q \<in> set comps" for q
  proof -
    obtain r where r: "r \<in> set (t_split p CHR ''>'')" and qr: "q = t_trim r"
      using q unfolding comps_def by auto
    have "sublist r p" using r by (rule t_split_sublist)
    then have "sublist q p"
      unfolding qr using t_trim_sublist[of r] by (meson sublist_order.order_trans)
    then have cq: "clean q" using assms(1) clean_sublist by blast
    have "inst a q \<in> set (map trim (js_split (inst a p) CHR ''>''))"
      unfolding sp using q by simp
    then have h: "sublist ''segment_'' (inst a q) \<longrightarrow> inst a q \<in> dom (mk a sg)"
      using assms(2) by blast
    have "createHTMLElement fuel (mk b sg) (inst b q) = createHTMLElement fuel (mk a sg) (inst a q)"
      using cq h assms(3) by (rule component_lockstep)
    then show ?thesis by (simp add: inst_empty)
  qed
  have "list_all2 (\<lambda>x y. (x = [] \<longleftrightarrow> y = []) \<and>
          createHTMLElement fuel (mk b sg) x = createHTMLElement fuel (mk a sg) y)
        (map (inst b) comps) (map (inst a) comps)"
    unfolding list_all2_map1 list_all2_map2 using each by (simp add: list_all2_same)
  then have "createParental_with (createHTMLElement fuel (mk b sg)) (inst b p) =
      createParental_with (createHTMLElement fuel (mk a sg)) (inst a p)"
    unfolding sp[symmetric] by (rule createParental_with_rel)
  then show ?thesis by simp
qed

lemma level_lockstep:
  assumes "clean t"
    and "\<forall>c\<in>set (components_of (inst a t)). sublist ''segment_'' c \<longrightarrow> c \<in> dom (mk a sg)"
    and "\<And>j n. fuel = Suc n \<Longrightarrow> j < length sg \<Longrightarrow>
           createParalel n (mk b sg) (inst b (rev sg ! j)) =
           createParalel n (mk a sg) (inst a (rev sg ! j))"
  shows "createParalel fuel (mk b sg) (inst b t) = createParalel fuel (mk a sg) (inst a t)"
proof -
  define pieces where "pieces = map t_trim (t_split t CHR ''+'')"
  have sp: "map trim (js_split (inst c t) CHR ''+'') = map (inst c) pieces" for c
    unfolding pieces_def by (simp add: js_split_inst trim_inst)
  have each: "createParental fuel (mk b sg) (inst b p) = createParental fuel (mk a sg) (inst a p)"
    if p: "p \<in> set pieces" for p
  proof -
    obtain r where r: "r \<in> set (t_split t CHR ''+'')" and pr: "p = t_trim r"
      using p unfolding pieces_def by auto
    have "sublist r t" using r by (rule t_split_sublist)
    then have "sublist p t"
      unfolding pr using t_trim_sublist[of r] by (meson sublist_order.order_trans)
    then have cp: "clean p" using assms(1) clean_sublist by blast
    have "inst a p \<in> set (map trim (js_split (inst a t) CHR ''+''))"
      unfolding sp using p by simp
    then have "set (map trim (js_split (inst a p) CHR ''>'')) \<subseteq> set (components_of (inst a t))"
      unfolding components_of_def by auto
    then have "\<forall>c\<in>set (map trim (js_split (inst a p) CHR ''>'')).
        sublist ''segment_'' c \<longrightarrow> c \<in> dom (mk a sg)"
      using assms(2) by blast
    with cp show ?thesis using assms(3) by (rule piece_lockstep)
  qed
  have "list_all2 (\<lambda>x y. createParental fuel (mk b sg) x = createParental fuel (mk a sg) y)
        (map (inst b) pieces) (map (inst a) pieces)"
    unfolding list_all2_map1 list_all2_map2 using each by (simp add: list_all2_same)
  then have "map_calls (createParental fuel (mk b sg)) (map (inst b) pieces) =
      map_calls (createParental fuel (mk a sg)) (map (inst a) pieces)"
    by (rule map_calls_rel)
  then show ?thesis by (simp add: sp)
qed

lemma resolve_lockstep:
  assumes "\<forall>g\<in>set sg. clean g"
    and "\<forall>v\<in>ran (mk a sg). \<forall>c\<in>set (components_of v).
           sublist ''segment_'' c \<longrightarrow> c \<in> dom (mk a sg)"
  shows "clean t \<Longrightarrow>
         \<forall>c\<in>set (components_of (inst a t)). sublist ''segment_'' c \<longrightarrow> c \<in> dom (mk a sg) \<Longrightarrow>
         createParalel fuel (mk b sg) (inst b t) = createParalel fuel (mk a sg) (inst a t)"
proof (induction fuel arbitrary: t)
  case 0
  then show ?case by (rule level_lockstep) simp
next
  case (Suc n)
  show ?case
  proof (rule level_lockstep[OF Suc.prems])
    fix j k
    assume k: "Suc n = Suc k" and j: "j < length sg"
    have "rev sg ! j \<in> set sg" using j by (metis length_rev nth_mem set_rev)
    then have c: "clean (rev sg ! j)" using assms(1) by blast
    have "inst a (rev sg ! j) \<in> ran (mk a sg)" using j by (rule mk_ran)
    then have h: "\<forall>c\<in>set (components_of (inst a (rev sg ! j))).
        sublist ''segment_'' c \<longrightarrow> c \<in> dom (mk a sg)"
      using assms(2) by blast
    show "createParalel k (mk b sg) (inst b (rev sg ! j)) =
          createParalel k (mk a sg) (inst a (rev sg ! j))"
      using Suc.IH[OF c h] k by simp
  qed
qed

text \<open>
  C8, amended. Let the normalised input not hold the text \<open>segment_\<close>, and let one
  run, with the segment \<open>a\<close>, leave no placeholder inside a leaf token: in the flattened
  string and in every recorded group text, each component between \<open>+\<close> and \<open>>\<close>
  that holds the text \<open>segment_\<close> is exactly one of the recorded placeholders. Then
  every other run, with any segment \<open>b\<close>, has the same outcome: the same trees, the
  same error, or the same exhaustion of the depth bound.
\<close>

theorem emmetToElements_segment_independent:
  assumes "\<not> sublist ''segment_'' (normalize input)"
    and "splitEmmetIntoSections a (normalize input) = (dataString, dividedSections)"
    and "\<forall>e\<in>insert dataString (ran dividedSections). \<forall>c\<in>set (components_of e).
           sublist ''segment_'' c \<longrightarrow> c \<in> dom dividedSections"
  shows "emmetToElements b fuel input = emmetToElements a fuel input"
proof -
  define t0 where "t0 = map Ch (normalize input)"
  have "clean t0"
  proof (unfold clean_def, rule notI)
    assume "sublist (map Ch ''segment_'') t0"
    then obtain ps ss where "t0 = ps @ map Ch ''segment_'' @ ss" unfolding sublist_def by blast
    then have "inst 0 t0 = inst 0 ps @ ''segment_'' @ inst 0 ss" by simp
    then have "sublist ''segment_'' (normalize input)"
      unfolding t0_def sublist_def by (metis inst_map_Ch)
    with assms(1) show False by simp
  qed
  moreover have "\<forall>g\<in>set ([] :: tok list list). clean g" by simp
  ultimately obtain t' sg' where ct: "clean t'" and cs: "\<forall>g\<in>set sg'. clean g"
    and run: "\<forall>c. sections_loop c (inst c t0) (length ([] :: tok list list)) (mk c []) =
                (inst c t', mk c sg')"
    using sections_loop_lockstep[of t0 "[]"] by blast
  have split: "splitEmmetIntoSections c (normalize input) = (inst c t', mk c sg')" for c
    using run by (simp add: splitEmmetIntoSections_def t0_def)
  have d: "dataString = inst a t'" and m: "dividedSections = mk a sg'"
    using split[of a] assms(2) by simp_all
  have h1: "\<forall>v\<in>ran (mk a sg'). \<forall>c\<in>set (components_of v).
      sublist ''segment_'' c \<longrightarrow> c \<in> dom (mk a sg')"
    using assms(3) unfolding m by blast
  have h2: "\<forall>c\<in>set (components_of (inst a t')). sublist ''segment_'' c \<longrightarrow> c \<in> dom (mk a sg')"
    using assms(3) unfolding m d by blast
  have "createParalel fuel (mk b sg') (inst b t') = createParalel fuel (mk a sg') (inst a t')"
    using cs h1 ct h2 by (rule resolve_lockstep)
  then show ?thesis by (simp add: emmetToElements_def split)
qed

theorem emmetToElements_segment_independent_witness:
  "\<not> sublist ''segment_'' (normalize ''section>(header>h1{H}+p{P})'') \<and>
   splitEmmetIntoSections 5 (normalize ''section>(header>h1{H}+p{P})'') =
     (''section>segment_50'', [''segment_50'' \<mapsto> ''header>h1{H}+p{P}'']) \<and>
   components_of ''section>segment_50'' = [''section'', ''segment_50''] \<and>
   components_of ''header>h1{H}+p{P}'' = [''header'', ''h1{H}'', ''p{P}''] \<and>
   emmetToElements 6 1 ''section>(header>h1{H}+p{P})'' =
     emmetToElements 5 1 ''section>(header>h1{H}+p{P})'' \<and>
   (\<forall>b fuel. emmetToElements b (Suc fuel) ''section>(header>h1{H}+p{P})'' =
     Some (Inr [Element ''section'' None None None []
       [Element ''header'' None None None [] [Element ''h1'' None None (Some ''H'') [] []],
        Element ''p'' None None (Some ''P'') [] []]]))"
proof -
  let ?input = "''section>(header>h1{H}+p{P})''"
  let ?ds = "[''segment_50'' \<mapsto> ''header>h1{H}+p{P}'']"
  have n: "normalize ?input = ?input" by code_simp
  have 1: "\<not> sublist ''segment_'' (normalize ?input)" by code_simp
  have e1: "regPattern_exec ?input = Some ''header>h1{H}+p{P}''" by code_simp
  have r1: "replace_first ?input (''('' @ ''header>h1{H}+p{P}'' @ '')'') ''segment_50'' =
      ''section>segment_50''" by code_simp
  have u: "uniqueIdentifier 5 0 = ''segment_50''" by code_simp
  have e2: "regPattern_exec ''section>segment_50'' = None" by code_simp
  have 2: "splitEmmetIntoSections 5 (normalize ?input) = (''section>segment_50'', ?ds)"
    unfolding n splitEmmetIntoSections_def sections_loop_step[OF e1] r1 u
    by (rule sections_loop_stop[OF e2])
  have c1: "components_of ''section>segment_50'' = [''section'', ''segment_50'']" by code_simp
  have c2: "components_of ''header>h1{H}+p{P}'' = [''header'', ''h1{H}'', ''p{P}'']" by code_simp
  have s1: "\<not> sublist ''segment_'' ''section''" by code_simp
  have s2: "\<not> sublist ''segment_'' ''header''" by code_simp
  have s3: "\<not> sublist ''segment_'' ''h1{H}''" by code_simp
  have s4: "\<not> sublist ''segment_'' ''p{P}''" by code_simp
  have ran: "ran ?ds = {''header>h1{H}+p{P}''}" by simp
  have 3: "\<forall>e\<in>insert ''section>segment_50'' (ran ?ds). \<forall>c\<in>set (components_of e).
      sublist ''segment_'' c \<longrightarrow> c \<in> dom ?ds"
    unfolding ran using s1 s2 s3 s4 by (simp add: c1 c2)
  have 4: "emmetToElements 6 1 ?input = emmetToElements 5 1 ?input"
    using 1 2 3 by (rule emmetToElements_segment_independent)
  let ?tree = "[Element ''section'' None None None []
       [Element ''header'' None None None [] [Element ''h1'' None None (Some ''H'') [] []],
        Element ''p'' None None (Some ''P'') [] []]]"
  have v: "emmetToElements 5 1 ?input = Some (Inr ?tree)" by code_simp
  have 5: "\<forall>b fuel. emmetToElements b (Suc fuel) ?input = Some (Inr ?tree)"
  proof (intro allI)
    fix b fuel
    have "emmetToElements b (Suc fuel) ?input = emmetToElements 5 (Suc fuel) ?input"
      using 1 2 3 by (rule emmetToElements_segment_independent)
    also have "\<dots> = Some (Inr ?tree)"
      using emmetToElements_more_fuel[OF v, of fuel] by simp
    finally show "emmetToElements b (Suc fuel) ?input = Some (Inr ?tree)" .
  qed
  show ?thesis by (rule conjI[OF 1 conjI[OF 2 conjI[OF c1 conjI[OF c2 conjI[OF 4 5]]]]])
qed

end
